theory Spec2Isabelle
  imports Complex_Main "HOL-Library.Word" "HOL-Library.Multiset"
begin

unbundle bit_operations_syntax

section \<open>Wire formats and constants\<close>

text \<open>
  The development follows \<^verbatim>\<open>tests/udp_can_loopback_pingpong_multi.py\<close>.
  Python \<^verbatim>\<open>bytes\<close> are lists of 8-bit words, Python integers are \<^typ>\<open>int\<close>,
  and readings of \<^verbatim>\<open>time.time()\<close> are taken as real numbers (the rounding of
  floating-point arithmetic is not part of the model).
\<close>

type_synonym bytes = "8 word list"

datatype error = StructError | ValueError

text \<open>\<^verbatim>\<open>UDP_STRUCT = struct.Struct(">BI8s")\<close>, whose \<^verbatim>\<open>size\<close> is 13.\<close>

definition UDP_STRUCT_size :: nat where
  "UDP_STRUCT_size = 13"

text \<open>\<^verbatim>\<open>CAN_STRUCT = struct.Struct("=IB3s8s")\<close>, whose \<^verbatim>\<open>size\<close> is 16.\<close>

definition CAN_STRUCT_size :: nat where
  "CAN_STRUCT_size = 16"

definition CAN_EFF_FLAG :: int where
  "CAN_EFF_FLAG = 0x80000000"

definition CAN_EFF_MASK :: int where
  "CAN_EFF_MASK = 0x1FFFFFFF"

text \<open>An unsigned integer read from bytes, most significant byte first.\<close>

definition be_uint :: "bytes \<Rightarrow> int" where
  "be_uint bs = foldl (\<lambda>acc b. 256 * acc + uint b) 0 bs"

text \<open>The same, least significant byte first.\<close>

definition le_uint :: "bytes \<Rightarrow> int" where
  "le_uint bs = foldr (\<lambda>b acc. uint b + 256 * acc) bs 0"

text \<open>
  The format \<^verbatim>\<open>"="\<close> of \<^verbatim>\<open>CAN_STRUCT\<close> is the byte order of the machine the
  script runs on; it is a parameter of the model.
\<close>

datatype byteorder = LittleEndian | BigEndian

definition native_uint :: "byteorder \<Rightarrow> bytes \<Rightarrow> int" where
  "native_uint bo bs = (case bo of LittleEndian \<Rightarrow> le_uint bs | BigEndian \<Rightarrow> be_uint bs)"

text \<open>The four bytes of an unsigned 32-bit integer, least significant first.\<close>

definition le_bytes4 :: "int \<Rightarrow> bytes" where
  "le_bytes4 n = map (\<lambda>i. word_of_int (n div 256 ^ i)) [0, 1, 2, 3]"

definition native_bytes4 :: "byteorder \<Rightarrow> int \<Rightarrow> bytes" where
  "native_bytes4 bo n = (case bo of LittleEndian \<Rightarrow> le_bytes4 n | BigEndian \<Rightarrow> rev (le_bytes4 n))"

text \<open>
  \<^verbatim>\<open>struct\<close>'s \<^verbatim>\<open>"3s"\<close> and \<^verbatim>\<open>"8s"\<close> on packing: the bytes are cut or padded
  with zero bytes to the field's width.
\<close>

definition fit :: "nat \<Rightarrow> bytes \<Rightarrow> bytes" where
  "fit n bs = take n bs @ replicate (n - length bs) 0"

text \<open>
  \<^verbatim>\<open>UDP_STRUCT.unpack(b)\<close>: \<^verbatim>\<open>(info, can_id, payload)\<close>, big-endian;
  \<^verbatim>\<open>struct.error\<close> unless \<^verbatim>\<open>b\<close> has exactly 13 bytes.
\<close>

definition UDP_STRUCT_unpack :: "bytes \<Rightarrow> error + (int \<times> int \<times> bytes)" where
  "UDP_STRUCT_unpack b =
     (if length b \<noteq> UDP_STRUCT_size then Inl StructError
      else Inr (uint (b ! 0), be_uint (take 4 (drop 1 b)), take 8 (drop 5 b)))"

text \<open>
  \<^verbatim>\<open>CAN_STRUCT.pack(can_id, dlc, pad, data)\<close>: \<^verbatim>\<open>struct.error\<close> when an integer
  does not fit its field.
\<close>

definition CAN_STRUCT_pack :: "byteorder \<Rightarrow> int \<Rightarrow> int \<Rightarrow> bytes \<Rightarrow> bytes \<Rightarrow> error + bytes" where
  "CAN_STRUCT_pack bo can_id dlc pad data =
     (if can_id < 0 \<or> 2 ^ 32 \<le> can_id \<or> dlc < 0 \<or> 256 \<le> dlc then Inl StructError
      else Inr (native_bytes4 bo can_id @ [word_of_int dlc] @ fit 3 pad @ fit 8 data))"

text \<open>
  \<^verbatim>\<open>CAN_STRUCT.unpack(b)\<close>: \<^verbatim>\<open>(can_id, dlc, pad, data)\<close>;
  \<^verbatim>\<open>struct.error\<close> unless \<^verbatim>\<open>b\<close> has exactly 16 bytes.
\<close>

definition CAN_STRUCT_unpack :: "byteorder \<Rightarrow> bytes \<Rightarrow> error + (int \<times> int \<times> bytes \<times> bytes)" where
  "CAN_STRUCT_unpack bo b =
     (if length b \<noteq> CAN_STRUCT_size then Inl StructError
      else Inr (native_uint bo (take 4 b), uint (b ! 4), take 3 (drop 5 b), take 8 (drop 8 b)))"

section \<open>Channel statistics\<close>

text \<open>
  \<^verbatim>\<open>class ChannelStats\<close>. The lock serialises \<^verbatim>\<open>record\<close> and
  \<^verbatim>\<open>snapshot\<close>, so each is one atomic step on the counters.
\<close>

record ChannelStats =
  label :: string
  id_min :: int
  id_max :: int
  total_stat :: int
  success :: int
  udp_timeouts :: int
  can_timeouts :: int
  data_errors :: int
  send_errors :: int
  last_id :: int

definition ChannelStats_init :: "string \<Rightarrow> int \<Rightarrow> int \<Rightarrow> ChannelStats" where
  "ChannelStats_init l lo hi =
     \<lparr>label = l, id_min = lo, id_max = hi, total_stat = 0, success = 0, udp_timeouts = 0,
      can_timeouts = 0, data_errors = 0, send_errors = 0, last_id = 0\<rparr>"

text \<open>\<^verbatim>\<open>ChannelStats.record(outcome, test_id)\<close>; the outcome is a Python string.\<close>

definition record_outcome :: "ChannelStats \<Rightarrow> string \<Rightarrow> int \<Rightarrow> ChannelStats" where
  "record_outcome s outcome test_id =
     (let s1 = s\<lparr>total_stat := total_stat s + 1\<rparr>;
          s2 = s1\<lparr>last_id := test_id\<rparr>
      in if outcome = ''success'' then s2\<lparr>success := success s2 + 1\<rparr>
         else if outcome = ''udp_timeout'' then s2\<lparr>udp_timeouts := udp_timeouts s2 + 1\<rparr>
         else if outcome = ''can_timeout'' then s2\<lparr>can_timeouts := can_timeouts s2 + 1\<rparr>
         else if outcome = ''data_error'' then s2\<lparr>data_errors := data_errors s2 + 1\<rparr>
         else if outcome = ''send_error'' then s2\<lparr>send_errors := send_errors s2 + 1\<rparr>
         else s2)"

text \<open>The values of the dictionary that \<^verbatim>\<open>snapshot\<close> returns.\<close>

datatype pyval = PyStr string | PyInt int

definition snapshot :: "ChannelStats \<Rightarrow> (string \<times> pyval) list" where
  "snapshot s =
     [(''label'', PyStr (label s)),
      (''total'', PyInt (total_stat s)),
      (''success'', PyInt (success s)),
      (''udp_timeouts'', PyInt (udp_timeouts s)),
      (''can_timeouts'', PyInt (can_timeouts s)),
      (''data_errors'', PyInt (data_errors s)),
      (''send_errors'', PyInt (send_errors s)),
      (''last_id'', PyInt (last_id s)),
      (''id_min'', PyInt (id_min s)),
      (''id_max'', PyInt (id_max s))]"

text \<open>A sequence of \<^verbatim>\<open>record\<close> calls, first call first.\<close>

fun record_all :: "ChannelStats \<Rightarrow> (string \<times> int) list \<Rightarrow> ChannelStats" where
  "record_all s [] = s"
| "record_all s ((outcome, test_id) # calls) = record_all (record_outcome s outcome test_id) calls"

text \<open>The closed set of outcomes the tester passes to \<^verbatim>\<open>record\<close>.\<close>

definition outcomes :: "string set" where
  "outcomes = {''success'', ''udp_timeout'', ''can_timeout'', ''data_error'', ''send_error''}"

text \<open>Reading an integer entry of a snapshot.\<close>

definition snap_int :: "(string \<times> pyval) list \<Rightarrow> string \<Rightarrow> int option" where
  "snap_int d k = (case map_of d k of Some (PyInt n) \<Rightarrow> Some n | _ \<Rightarrow> None)"

text \<open>The counters add up to the total.\<close>

definition stats_sum_ok :: "ChannelStats \<Rightarrow> bool" where
  "stats_sum_ok s \<longleftrightarrow>
     total_stat s = success s + udp_timeouts s + can_timeouts s + data_errors s + send_errors s"

section \<open>Port multiplexer\<close>

text \<open>
  \<^verbatim>\<open>class PortContext\<close>. An entry of the mailbox is the tuple
  \<^verbatim>\<open>(packet, info, can_id, payload)\<close>; the mailbox is the
  \<^verbatim>\<open>defaultdict(deque)\<close> from identifier to queue, head of the queue first.
  Every access to the mailbox is made inside \<^verbatim>\<open>with self._cond\<close>, so each such
  block is one atomic step of the model, and the steps of different threads interleave.
\<close>

type_synonym item = "bytes \<times> int \<times> int \<times> bytes"

type_synonym mailbox = "int \<rightharpoonup> item list"

text \<open>\<^verbatim>\<open>self._mailbox[can_id].append(item)\<close>: a missing key starts from an empty queue.\<close>

definition mailbox_append :: "mailbox \<Rightarrow> int \<Rightarrow> item \<Rightarrow> mailbox" where
  "mailbox_append mb can_id it = mb(can_id \<mapsto> (case mb can_id of None \<Rightarrow> [] | Some q \<Rightarrow> q) @ [it])"

text \<open>
  What one round of \<^verbatim>\<open>_rx_loop\<close> does with the \<^verbatim>\<open>packet\<close> that
  \<^verbatim>\<open>recvfrom\<close> returned: the length test, then the decoding of its first 13 bytes.
\<close>

datatype rx_outcome = Discard | Enqueue int item | Raise error

definition rx_classify :: "bytes \<Rightarrow> rx_outcome" where
  "rx_classify packet =
     (if length packet < UDP_STRUCT_size then Discard
      else case UDP_STRUCT_unpack (take UDP_STRUCT_size packet) of
             Inl e \<Rightarrow> Raise e
           | Inr (info, can_id, payload) \<Rightarrow> Enqueue can_id (packet, info, can_id, payload))"

text \<open>The mailbox after that round; an exception would end the thread and leave it as it is.\<close>

definition rx_datagram :: "mailbox \<Rightarrow> bytes \<Rightarrow> mailbox" where
  "rx_datagram mb packet =
     (case rx_classify packet of Enqueue can_id it \<Rightarrow> mailbox_append mb can_id it | _ \<Rightarrow> mb)"

text \<open>\<^verbatim>\<open>self.sock.recvfrom(64)\<close> keeps at most 64 bytes of a datagram.\<close>

definition rx_receive :: "mailbox \<Rightarrow> bytes \<Rightarrow> mailbox" where
  "rx_receive mb dgram = rx_datagram mb (take 64 dgram)"

text \<open>
  One pass of the \<^verbatim>\<open>while True\<close> body of \<^verbatim>\<open>wait_for_packet\<close>, made with the
  lock held: \<^verbatim>\<open>now\<close> is the clock it reads and \<^verbatim>\<open>stop\<close> is
  \<^verbatim>\<open>stop_event.is_set()\<close>. Either the call returns, or it goes on to
  \<^verbatim>\<open>self._cond.wait(remaining)\<close>.
\<close>

datatype 'a pass = Return 'a | Wait

definition wait_check :: "mailbox \<Rightarrow> int \<Rightarrow> real \<Rightarrow> real \<Rightarrow> bool \<Rightarrow> item option pass \<times> mailbox" where
  "wait_check mb can_id deadline now stop =
     (case mb can_id of
        Some (it # queue) \<Rightarrow>
          (Return (Some it), if queue = [] then mb(can_id := None) else mb(can_id \<mapsto> queue))
      | _ \<Rightarrow>
          (let remaining = deadline - now
           in if remaining \<le> 0 \<or> stop then (Return None, mb) else (Wait, mb)))"

text \<open>
  The atomic steps of the threads that share one mailbox: the receive thread takes a datagram
  from the socket, or a waiter makes one pass of its loop.
\<close>

datatype mux_op = Rx bytes | Check int real real bool

text \<open>What a step does to the queues, for the record of a run.\<close>

datatype mux_event = Enqueued int item | Delivered int item

fun mux_step :: "mailbox \<Rightarrow> mux_op \<Rightarrow> mailbox \<times> mux_event list" where
  "mux_step mb (Rx dgram) =
     (rx_receive mb dgram,
      case rx_classify (take 64 dgram) of Enqueue can_id it \<Rightarrow> [Enqueued can_id it] | _ \<Rightarrow> [])"
| "mux_step mb (Check can_id deadline now stop) =
     (case wait_check mb can_id deadline now stop of
        (Return (Some it), mb') \<Rightarrow> (mb', [Delivered can_id it])
      | (_, mb') \<Rightarrow> (mb', []))"

fun mux_run :: "mailbox \<Rightarrow> mux_op list \<Rightarrow> mailbox \<times> mux_event list" where
  "mux_run mb [] = (mb, [])"
| "mux_run mb (x # ops) =
     (case mux_step mb x of (mb1, ev1) \<Rightarrow>
        (case mux_run mb1 ops of (mb2, ev2) \<Rightarrow> (mb2, ev1 @ ev2)))"

fun enqueued :: "mux_event list \<Rightarrow> (int \<times> item) list" where
  "enqueued [] = []"
| "enqueued (Enqueued k it # evs) = (k, it) # enqueued evs"
| "enqueued (Delivered k it # evs) = enqueued evs"

fun delivered :: "mux_event list \<Rightarrow> (int \<times> item) list" where
  "delivered [] = []"
| "delivered (Enqueued k it # evs) = delivered evs"
| "delivered (Delivered k it # evs) = (k, it) # delivered evs"

text \<open>
  \<^verbatim>\<open>wait_for_packet(can_id, timeout)\<close>, entered at clock \<^verbatim>\<open>t0\<close>. Each element of
  the list is one pass of the loop: the clock and the stop flag the pass reads, and the steps
  the other threads make while the caller sleeps in \<^verbatim>\<open>self._cond.wait\<close> afterwards.
  The result is the returned value with the mailbox left behind; \<open>None\<close> when the passes
  run out with the caller still waiting.
\<close>

type_synonym wakeup = "real \<times> bool \<times> mux_op list"

fun wait_loop :: "mailbox \<Rightarrow> int \<Rightarrow> real \<Rightarrow> wakeup list \<Rightarrow> (item option \<times> mailbox) option" where
  "wait_loop mb can_id deadline [] = None"
| "wait_loop mb can_id deadline ((now, stop, during_wait) # rest) =
     (case wait_check mb can_id deadline now stop of
        (Return r, mb') \<Rightarrow> Some (r, mb')
      | (Wait, mb') \<Rightarrow> wait_loop (fst (mux_run mb' during_wait)) can_id deadline rest)"

definition wait_for_packet ::
  "mailbox \<Rightarrow> int \<Rightarrow> real \<Rightarrow> real \<Rightarrow> wakeup list \<Rightarrow> (item option \<times> mailbox) option" where
  "wait_for_packet mb can_id t0 timeout wakeups = wait_loop mb can_id (t0 + timeout) wakeups"

text \<open>The mailboxes that the threads can produce from the empty one.\<close>

inductive reachable :: "mailbox \<Rightarrow> bool" where
  reachable_init: "reachable Map.empty"
| reachable_step: "reachable mb \<Longrightarrow> reachable (fst (mux_step mb x))"

text \<open>No key of the mailbox holds an empty queue.\<close>

definition mailbox_inv :: "mailbox \<Rightarrow> bool" where
  "mailbox_inv mb \<longleftrightarrow> (\<forall>k. mb k \<noteq> Some [])"

text \<open>Every entry sits in the queue of the identifier decoded from its own datagram.\<close>

definition keyed :: "mailbox \<Rightarrow> bool" where
  "keyed mb \<longleftrightarrow> (\<forall>k q it. mb k = Some q \<longrightarrow> it \<in> set q \<longrightarrow> rx_classify (fst it) = Enqueue k it)"

section \<open>Channel tester\<close>

text \<open>
  \<^verbatim>\<open>class ChannelTester\<close>. What the sockets and the clock answer is given to the
  model from outside; the messages printed to the console are left out.
\<close>

text \<open>What \<^verbatim>\<open>self.can_sock.recvfrom(CAN_STRUCT.size)\<close> does in one poll.\<close>

datatype recv_result = RecvTimeout | RecvOSError | Received bytes

text \<open>
  The test on a decoded frame in \<^verbatim>\<open>_wait_for_can_echo\<close>:
  \<^verbatim>\<open>actual_id == expected_id and data[:dlc] == expected_payload[:dlc]\<close>
  with \<^verbatim>\<open>actual_id = can_id & CAN_EFF_MASK\<close>.
\<close>

definition echo_matches :: "int \<Rightarrow> bytes \<Rightarrow> int \<Rightarrow> int \<Rightarrow> bytes \<Rightarrow> bool" where
  "echo_matches expected_id expected_payload can_id dlc data \<longleftrightarrow>
     (let actual_id = can_id AND CAN_EFF_MASK
      in actual_id = expected_id \<and> take (nat dlc) data = take (nat dlc) expected_payload)"

text \<open>
  One element of the list is one round of the \<^verbatim>\<open>while\<close> loop: the stop flag and the
  clock it reads, and what \<^verbatim>\<open>recvfrom\<close> does. \<open>None\<close> when the rounds run out with
  the loop still polling; \<open>Inl\<close> when \<^verbatim>\<open>CAN_STRUCT.unpack\<close> raises.
\<close>

type_synonym poll = "bool \<times> real \<times> recv_result"

fun echo_loop :: "byteorder \<Rightarrow> int \<Rightarrow> bytes \<Rightarrow> real \<Rightarrow> poll list \<Rightarrow> (error + bool) option" where
  "echo_loop bo expected_id expected_payload deadline [] = None"
| "echo_loop bo expected_id expected_payload deadline ((stop, now, r) # rest) =
     (if stop then Some (Inr False)
      else let remaining = deadline - now
           in if remaining \<le> 0 then Some (Inr False)
              else case r of
                     RecvTimeout \<Rightarrow> echo_loop bo expected_id expected_payload deadline rest
                   | RecvOSError \<Rightarrow> Some (Inr False)
                   | Received frame_bytes \<Rightarrow>
                       (case CAN_STRUCT_unpack bo frame_bytes of
                          Inl e \<Rightarrow> Some (Inl e)
                        | Inr (can_id, dlc, pad, data) \<Rightarrow>
                            if echo_matches expected_id expected_payload can_id dlc data
                            then Some (Inr True)
                            else echo_loop bo expected_id expected_payload deadline rest))"

definition wait_for_can_echo ::
  "byteorder \<Rightarrow> int \<Rightarrow> bytes \<Rightarrow> real \<Rightarrow> real \<Rightarrow> poll list \<Rightarrow> (error + bool) option" where
  "wait_for_can_echo bo expected_id expected_payload t0 timeout polls =
     echo_loop bo expected_id expected_payload (t0 + timeout) polls"

text \<open>What one cycle of \<^verbatim>\<open>run\<close> meets outside the tester.\<close>

record cycle_env =
  can_send_fails :: bool
  udp_t0 :: real
  udp_wakeups :: "wakeup list"
  bridge_send_fails :: bool
  can_t0 :: real
  can_polls :: "poll list"

text \<open>What a cycle has done outside the tester, in order.\<close>

datatype action = CanSent bytes | Slept real | UdpSent bytes

text \<open>
  One round of the \<^verbatim>\<open>while\<close> loop of \<^verbatim>\<open>run\<close>, for the drawn \<^verbatim>\<open>base_id\<close> and
  \<^verbatim>\<open>payload\<close>: the statistics and the mailbox after it and what it did. \<open>None\<close> when
  one of its waits does not return; \<open>Inl\<close> when packing or unpacking raises.
\<close>

definition run_cycle ::
  "byteorder \<Rightarrow> ChannelStats \<Rightarrow> mailbox \<Rightarrow> bool \<Rightarrow> int \<Rightarrow> bytes \<Rightarrow> cycle_env
     \<Rightarrow> (error + ChannelStats \<times> mailbox \<times> action list) option" where
  "run_cycle bo stats mb extended base_id payload env =
     (let frame_id = base_id OR (if extended then CAN_EFF_FLAG else 0)
      in case CAN_STRUCT_pack bo frame_id 8 [0, 0, 0] payload of
           Inl e \<Rightarrow> Some (Inl e)
         | Inr frame \<Rightarrow>
             if can_send_fails env
             then Some (Inr (record_outcome stats ''send_error'' base_id, mb, [Slept 0.2]))
             else
               (case wait_for_packet mb base_id (udp_t0 env) 0.5 (udp_wakeups env) of
                  None \<Rightarrow> None
                | Some (None, mb') \<Rightarrow>
                    Some (Inr (record_outcome stats ''udp_timeout'' base_id, mb', [CanSent frame]))
                | Some (Some (packet_bytes, info, packet_id, udp_payload), mb') \<Rightarrow>
                    if packet_id \<noteq> base_id \<or> udp_payload \<noteq> payload
                    then Some (Inr (record_outcome stats ''data_error'' base_id, mb', [CanSent frame]))
                    else if bridge_send_fails env
                    then Some (Inr (record_outcome stats ''send_error'' base_id, mb', [CanSent frame]))
                    else
                      (case wait_for_can_echo bo base_id payload (can_t0 env) 0.5 (can_polls env) of
                         None \<Rightarrow> None
                       | Some (Inl e) \<Rightarrow> Some (Inl e)
                       | Some (Inr found) \<Rightarrow>
                           Some (Inr (record_outcome stats
                                        (if found then ''success'' else ''can_timeout'') base_id,
                                      mb', [CanSent frame, UdpSent packet_bytes])))))"

text \<open>A round of the polling loop after which the loop polls again.\<close>

definition polls_on :: "byteorder \<Rightarrow> int \<Rightarrow> bytes \<Rightarrow> real \<Rightarrow> poll \<Rightarrow> bool" where
  "polls_on bo expected_id expected_payload deadline p =
     (case p of (stop, now, r) \<Rightarrow>
        \<not> stop \<and> now < deadline \<and>
        (case r of
           RecvTimeout \<Rightarrow> True
         | RecvOSError \<Rightarrow> False
         | Received frame_bytes \<Rightarrow>
             (case CAN_STRUCT_unpack bo frame_bytes of
                Inl e \<Rightarrow> False
              | Inr (can_id, dlc, pad, data) \<Rightarrow>
                  \<not> echo_matches expected_id expected_payload can_id dlc data)))"

text \<open>A round in which a frame arrives in time and passes the test.\<close>

definition accepted_at :: "byteorder \<Rightarrow> int \<Rightarrow> bytes \<Rightarrow> real \<Rightarrow> poll \<Rightarrow> bool" where
  "accepted_at bo expected_id expected_payload deadline p =
     (case p of (stop, now, r) \<Rightarrow>
        \<not> stop \<and> now < deadline \<and>
        (case r of
           Received frame_bytes \<Rightarrow>
             (case CAN_STRUCT_unpack bo frame_bytes of
                Inl e \<Rightarrow> False
              | Inr (can_id, dlc, pad, data) \<Rightarrow>
                  can_id AND CAN_EFF_MASK = expected_id \<and>
                  take (nat dlc) data = take (nat dlc) expected_payload)
         | _ \<Rightarrow> False))"

text \<open>
  The reading of the acceptance rule in which the frame's payload, cut to its declared
  length, is compared with the whole payload that was sent.
\<close>

definition echo_matches_whole :: "int \<Rightarrow> bytes \<Rightarrow> int \<Rightarrow> int \<Rightarrow> bytes \<Rightarrow> bool" where
  "echo_matches_whole expected_id expected_payload can_id dlc data \<longleftrightarrow>
     can_id AND CAN_EFF_MASK = expected_id \<and> take (nat dlc) data = expected_payload"

text \<open>The queue of a key, empty when the key is absent.\<close>

definition queue_of :: "mailbox \<Rightarrow> int \<Rightarrow> item list" where
  "queue_of mb k = (case mb k of None \<Rightarrow> [] | Some q \<Rightarrow> q)"

text \<open>The entries of a snapshot add up as the counters do.\<close>

definition snapshot_sum_ok :: "(string \<times> pyval) list \<Rightarrow> bool" where
  "snapshot_sum_ok d \<longleftrightarrow>
     (case (snap_int d ''total'', snap_int d ''success'', snap_int d ''udp_timeouts'',
            snap_int d ''can_timeouts'', snap_int d ''data_errors'', snap_int d ''send_errors'') of
        (Some t, Some a, Some b, Some c, Some e, Some f) \<Rightarrow> t = a + b + c + e + f
      | _ \<Rightarrow> False)"

text \<open>The entries of a run's record that belong to one key, in order.\<close>

definition of_key :: "int \<Rightarrow> (int \<times> item) list \<Rightarrow> item list" where
  "of_key k xs = map snd (filter (\<lambda>x. fst x = k) xs)"

text \<open>
  The clock read by the pass at which \<^verbatim>\<open>wait_for_packet\<close> returns: the same loop as
  \<open>wait_loop\<close>, keeping the clock of the returning pass instead of the value.
\<close>

fun wait_loop_clock :: "mailbox \<Rightarrow> int \<Rightarrow> real \<Rightarrow> wakeup list \<Rightarrow> real option" where
  "wait_loop_clock mb can_id deadline [] = None"
| "wait_loop_clock mb can_id deadline ((now, stop, during_wait) # rest) =
     (case wait_check mb can_id deadline now stop of
        (Return r, mb') \<Rightarrow> Some now
      | (Wait, mb') \<Rightarrow> wait_loop_clock (fst (mux_run mb' during_wait)) can_id deadline rest)"


text \<open>
  The clock of the round at which \<^verbatim>\<open>_wait_for_can_echo\<close> returns: the first round
  that, taken alone, makes \<open>echo_loop\<close> return.
\<close>

fun echo_loop_clock :: "byteorder \<Rightarrow> int \<Rightarrow> bytes \<Rightarrow> real \<Rightarrow> poll list \<Rightarrow> real option" where
  "echo_loop_clock bo expected_id expected_payload deadline [] = None"
| "echo_loop_clock bo expected_id expected_payload deadline ((stop, now, r) # rest) =
     (case echo_loop bo expected_id expected_payload deadline [(stop, now, r)] of
        Some res \<Rightarrow> Some now
      | None \<Rightarrow> echo_loop_clock bo expected_id expected_payload deadline rest)"








section \<open>The mailbox invariant\<close>

lemma rx_classify_no_raise: "rx_classify packet \<noteq> Raise e"
  by (simp add: rx_classify_def UDP_STRUCT_unpack_def UDP_STRUCT_size_def split: prod.splits)

lemma rx_classify_short: "length packet < 13 \<Longrightarrow> rx_classify packet = Discard"
  by (simp add: rx_classify_def UDP_STRUCT_size_def)

lemma rx_classify_long:
  "13 \<le> length packet \<Longrightarrow>
     rx_classify packet =
       Enqueue (be_uint (take 4 (drop 1 packet)))
         (packet, uint (packet ! 0), be_uint (take 4 (drop 1 packet)), take 8 (drop 5 packet))"
  by (simp add: rx_classify_def UDP_STRUCT_unpack_def UDP_STRUCT_size_def min_def drop_take)

lemma queue_of_append:
  "queue_of (mailbox_append mb k it) k' = (if k' = k then queue_of mb k @ [it] else queue_of mb k')"
  by (simp add: queue_of_def mailbox_append_def)

lemma mailbox_inv_empty: "mailbox_inv Map.empty"
  by (simp add: mailbox_inv_def)

lemma mailbox_inv_append: "mailbox_inv mb \<Longrightarrow> mailbox_inv (mailbox_append mb k it)"
  by (simp add: mailbox_inv_def mailbox_append_def)

lemma mailbox_inv_rx: "mailbox_inv mb \<Longrightarrow> mailbox_inv (rx_datagram mb packet)"
  by (simp add: rx_datagram_def mailbox_inv_append split: rx_outcome.splits)

lemma mailbox_inv_check:
  "mailbox_inv mb \<Longrightarrow> mailbox_inv (snd (wait_check mb can_id deadline now stop))"
  by (auto simp: wait_check_def mailbox_inv_def Let_def split: option.splits list.splits)

lemma mailbox_inv_step: "mailbox_inv mb \<Longrightarrow> mailbox_inv (fst (mux_step mb x))"
proof (cases x)
  case (Rx d)
  assume "mailbox_inv mb"
  then show ?thesis using Rx by (simp add: rx_receive_def mailbox_inv_rx)
next
  case (Check k d n s)
  assume "mailbox_inv mb"
  then have "mailbox_inv (snd (wait_check mb k d n s))" by (rule mailbox_inv_check)
  then show ?thesis using Check
    by (auto split: prod.splits pass.splits option.splits)
qed

lemma mux_run_fst_Cons: "fst (mux_run mb (x # ops)) = fst (mux_run (fst (mux_step mb x)) ops)"
  by (cases "mux_step mb x"; cases "mux_run (fst (mux_step mb x)) ops") simp

lemma mailbox_inv_run: "mailbox_inv mb \<Longrightarrow> mailbox_inv (fst (mux_run mb ops))"
proof (induction ops arbitrary: mb)
  case Nil
  then show ?case by simp
next
  case (Cons x ops)
  from Cons.prems have "mailbox_inv (fst (mux_step mb x))" by (rule mailbox_inv_step)
  then have "mailbox_inv (fst (mux_run (fst (mux_step mb x)) ops))" by (rule Cons.IH)
  then show ?case by (simp only: mux_run_fst_Cons)
qed

lemma mailbox_inv_wait_loop:
  "mailbox_inv mb \<Longrightarrow> wait_loop mb can_id deadline wakeups = Some (r, mb') \<Longrightarrow> mailbox_inv mb'"
proof (induction wakeups arbitrary: mb)
  case Nil
  then show ?case by simp
next
  case (Cons w wakeups)
  obtain now stop during where w: "w = (now, stop, during)" by (cases w)
  obtain p mb1 where c: "wait_check mb can_id deadline now stop = (p, mb1)"
    by (cases "wait_check mb can_id deadline now stop")
  have inv1: "mailbox_inv mb1"
    using mailbox_inv_check [OF Cons.prems(1), of can_id deadline now stop] c by simp
  show ?case
  proof (cases p)
    case (Return r')
    then show ?thesis using Cons.prems(2) w c inv1 by simp
  next
    case Wait
    then have "wait_loop (fst (mux_run mb1 during)) can_id deadline wakeups = Some (r, mb')"
      using Cons.prems(2) w c by simp
    then show ?thesis using Cons.IH [OF mailbox_inv_run [OF inv1]] by blast
  qed
qed

lemma reachable_mailbox_inv: "reachable mb \<Longrightarrow> mailbox_inv mb"
  by (induction rule: reachable.induct) (simp_all add: mailbox_inv_empty mailbox_inv_step)

text \<open>
  C8: after every operation of the multiplexer, every identifier present in the mailbox
  points to a non-empty queue. The empty mailbox has the property; the receive round and a
  pass of \<^verbatim>\<open>wait_for_packet\<close> keep it, hence so does a whole call and every mailbox
  the threads can reach; and taking the last entry of a queue removes its key.
\<close>

theorem mailbox_keys_nonempty:
  "mailbox_inv Map.empty \<and>
   (mailbox_inv mb \<longrightarrow> mailbox_inv (rx_datagram mb packet)) \<and>
   (mailbox_inv mb \<longrightarrow> mailbox_inv (snd (wait_check mb can_id deadline now stop))) \<and>
   (mailbox_inv mb \<longrightarrow> wait_for_packet mb can_id t0 timeout wakeups = Some (r, mb') \<longrightarrow> mailbox_inv mb') \<and>
   (reachable mb \<longrightarrow> mailbox_inv mb) \<and>
   (mb can_id = Some [it] \<longrightarrow> snd (wait_check mb can_id deadline now stop) can_id = None)"
proof -
  have "mb can_id = Some [it] \<longrightarrow> snd (wait_check mb can_id deadline now stop) can_id = None"
    by (simp add: wait_check_def)
  moreover have "mailbox_inv mb \<longrightarrow> wait_for_packet mb can_id t0 timeout wakeups = Some (r, mb') \<longrightarrow> mailbox_inv mb'"
    unfolding wait_for_packet_def using mailbox_inv_wait_loop by blast
  ultimately show ?thesis
    using mailbox_inv_empty mailbox_inv_rx mailbox_inv_check reachable_mailbox_inv by blast
qed

theorem mailbox_keys_nonempty_witness:
  "mailbox_inv (rx_datagram Map.empty [0x08, 0x00, 0x00, 0x01, 0x23, 1, 2, 3, 4, 5, 6, 7, 8]) \<and>
   rx_datagram Map.empty [0x08, 0x00, 0x00, 0x01, 0x23, 1, 2, 3, 4, 5, 6, 7, 8] 0x123 =
     Some [([0x08, 0x00, 0x00, 0x01, 0x23, 1, 2, 3, 4, 5, 6, 7, 8], 8, 0x123, [1, 2, 3, 4, 5, 6, 7, 8])] \<and>
   snd (wait_check (rx_datagram Map.empty [0x08, 0x00, 0x00, 0x01, 0x23, 1, 2, 3, 4, 5, 6, 7, 8])
          0x123 0.5 0 False) 0x123 = None \<and>
   mailbox_inv (snd (wait_check (rx_datagram Map.empty [0x08, 0x00, 0x00, 0x01, 0x23, 1, 2, 3, 4, 5, 6, 7, 8])
          0x123 0.5 0 False))"
proof -
  let ?p = "[0x08, 0x00, 0x00, 0x01, 0x23, 1, 2, 3, 4, 5, 6, 7, 8] :: bytes"
  let ?it = "(?p, 8::int, 0x123::int, [1, 2, 3, 4, 5, 6, 7, 8] :: bytes)"
  have c: "rx_classify ?p = Enqueue 0x123 ?it"
    by (simp add: rx_classify_def UDP_STRUCT_unpack_def UDP_STRUCT_size_def be_uint_def)
  have q: "rx_datagram Map.empty ?p 0x123 = Some [?it]"
    by (simp add: rx_datagram_def c mailbox_append_def)
  have e: "mailbox_inv Map.empty" by (simp add: mailbox_inv_def)
  have i1: "mailbox_inv (rx_datagram Map.empty ?p)"
    using mailbox_keys_nonempty [where mb = Map.empty and packet = ?p] e by blast
  have i2: "mailbox_inv (snd (wait_check (rx_datagram Map.empty ?p) 0x123 0.5 0 False))"
    using mailbox_keys_nonempty
      [where mb = "rx_datagram Map.empty ?p" and can_id = "0x123" and deadline = "0.5" and now = 0
         and stop = False] i1
    by blast
  have i3: "snd (wait_check (rx_datagram Map.empty ?p) 0x123 0.5 0 False) 0x123 = None"
    using mailbox_keys_nonempty
      [where mb = "rx_datagram Map.empty ?p" and can_id = "0x123" and deadline = "0.5" and now = 0
         and stop = False and it = ?it] q
    by blast
  show ?thesis using i1 q i3 i2 by blast
qed

section \<open>The statistics add up\<close>

lemma record_outcome_sum:
  "outcome \<in> outcomes \<Longrightarrow> stats_sum_ok s \<Longrightarrow> stats_sum_ok (record_outcome s outcome i)"
  by (auto simp: outcomes_def stats_sum_ok_def record_outcome_def)

lemma record_outcome_last_id: "last_id (record_outcome s outcome i) = i"
  by (simp add: record_outcome_def Let_def)

lemma record_all_sum:
  "\<forall>c \<in> set calls. fst c \<in> outcomes \<Longrightarrow> stats_sum_ok s \<Longrightarrow> stats_sum_ok (record_all s calls)"
  by (induction s calls rule: record_all.induct) (simp_all add: record_outcome_sum)

lemma record_all_last_id:
  "last_id (record_all s calls) = (if calls = [] then last_id s else snd (last calls))"
  by (induction s calls rule: record_all.induct) (auto simp: record_outcome_last_id)

lemma snapshot_sum: "snapshot_sum_ok (snapshot s) = stats_sum_ok s"
  by (simp add: snapshot_sum_ok_def snapshot_def snap_int_def stats_sum_ok_def)

lemma snapshot_last_id: "snap_int (snapshot s) ''last_id'' = Some (last_id s)"
  by (simp add: snapshot_def snap_int_def)

text \<open>
  C9: the statistics start with \<open>total\<close> equal to the sum of the five outcome counters, and
  after any sequence of \<^verbatim>\<open>record\<close> calls whose outcomes are among the five, made from
  statistics where the equation holds, it holds again, \<^verbatim>\<open>last_id\<close> is the identifier
  of the latest call, and the snapshot shows the same.
\<close>

theorem stats_total_is_sum:
  "stats_sum_ok (ChannelStats_init l lo hi) \<and>
   (stats_sum_ok s \<and> (\<forall>c \<in> set calls. fst c \<in> outcomes) \<longrightarrow>
      stats_sum_ok (record_all s calls) \<and>
      last_id (record_all s calls) = (if calls = [] then last_id s else snd (last calls)) \<and>
      snapshot_sum_ok (snapshot (record_all s calls)) \<and>
      snap_int (snapshot (record_all s calls)) ''last_id'' = Some (last_id (record_all s calls)))"
proof -
  have "stats_sum_ok (ChannelStats_init l lo hi)"
    by (simp add: stats_sum_ok_def ChannelStats_init_def)
  then show ?thesis
    using record_all_sum [of calls s] record_all_last_id [of s calls]
    by (simp add: snapshot_sum snapshot_last_id)
qed

theorem stats_total_is_sum_witness:
  "stats_sum_ok (record_all (ChannelStats_init ''vcan0@UDP5555#ch0'' 0x100 0x1FF)
                   [(''success'', 0x123), (''udp_timeout'', 0x150), (''data_error'', 0x101)]) \<and>
   last_id (record_all (ChannelStats_init ''vcan0@UDP5555#ch0'' 0x100 0x1FF)
                   [(''success'', 0x123), (''udp_timeout'', 0x150), (''data_error'', 0x101)]) = 0x101 \<and>
   total_stat (record_all (ChannelStats_init ''vcan0@UDP5555#ch0'' 0x100 0x1FF)
                   [(''success'', 0x123), (''udp_timeout'', 0x150), (''data_error'', 0x101)]) = 3 \<and>
   snapshot_sum_ok (snapshot (record_all (ChannelStats_init ''vcan0@UDP5555#ch0'' 0x100 0x1FF)
                   [(''success'', 0x123), (''udp_timeout'', 0x150), (''data_error'', 0x101)]))"
proof -
  let ?s = "ChannelStats_init ''vcan0@UDP5555#ch0'' 0x100 0x1FF"
  let ?calls = "[(''success'', 0x123), (''udp_timeout'', 0x150), (''data_error'', 0x101)] :: (string \<times> int) list"
  have h: "\<forall>c \<in> set ?calls. fst c \<in> outcomes" by (simp add: outcomes_def)
  have t: "total_stat (record_all ?s ?calls) = 3"
    by (simp add: record_outcome_def ChannelStats_init_def)
  show ?thesis
    using stats_total_is_sum [where s = ?s and calls = ?calls and l = "''vcan0@UDP5555#ch0''"
        and lo = "0x100" and hi = "0x1FF"] h t
    by simp
qed

section \<open>Entries stay under their own key\<close>

lemma rx_classify_Enqueue_fst: "rx_classify packet = Enqueue k it \<Longrightarrow> fst it = packet"
  by (auto simp: rx_classify_def split: if_splits sum.splits prod.splits)

lemma rx_classify_Enqueue_id:
  "rx_classify packet = Enqueue k (p, info, can_id, payload) \<Longrightarrow> can_id = k"
  by (auto simp: rx_classify_def split: if_splits sum.splits prod.splits)

lemma keyedD:
  "keyed mb \<Longrightarrow> mb k = Some q \<Longrightarrow> it \<in> set q \<Longrightarrow> rx_classify (fst it) = Enqueue k it"
  unfolding keyed_def by blast

lemma keyedI:
  "(\<And>k q it. mb k = Some q \<Longrightarrow> it \<in> set q \<Longrightarrow> rx_classify (fst it) = Enqueue k it) \<Longrightarrow> keyed mb"
  unfolding keyed_def by blast

lemma keyed_empty: "keyed Map.empty"
  by (rule keyedI) simp

lemma keyed_append:
  assumes "keyed mb" and "rx_classify (fst it) = Enqueue k it"
  shows "keyed (mailbox_append mb k it)"
proof (rule keyedI)
  fix k' q x
  assume q: "mailbox_append mb k it k' = Some q" and x: "x \<in> set q"
  show "rx_classify (fst x) = Enqueue k' x"
  proof (cases "k' = k")
    case False
    then have "mb k' = Some q" using q by (simp add: mailbox_append_def)
    then show ?thesis using keyedD [OF assms(1)] x by blast
  next
    case True
    then have qq: "q = queue_of mb k @ [it]" using q by (simp add: mailbox_append_def queue_of_def)
    show ?thesis
    proof (cases "x = it")
      case True
      then show ?thesis using assms(2) \<open>k' = k\<close> by simp
    next
      case False
      then have "x \<in> set (queue_of mb k)" using x qq by simp
      then obtain q0 where "mb k = Some q0" "x \<in> set q0"
        by (cases "mb k") (simp_all add: queue_of_def)
      then show ?thesis using keyedD [OF assms(1)] \<open>k' = k\<close> by blast
    qed
  qed
qed

lemma keyed_rx: "keyed mb \<Longrightarrow> keyed (rx_datagram mb packet)"
proof (cases "rx_classify packet")
  case (Enqueue k it)
  assume "keyed mb"
  moreover have "rx_classify (fst it) = Enqueue k it"
    using Enqueue rx_classify_Enqueue_fst [OF Enqueue] by simp
  ultimately show ?thesis using Enqueue by (simp add: rx_datagram_def keyed_append)
qed (simp_all add: rx_datagram_def)

lemma wait_check_queue:
  "snd (wait_check mb can_id deadline now stop) k = Some q \<Longrightarrow>
     \<exists>q0. mb k = Some q0 \<and> set q \<subseteq> set q0"
  by (auto simp: wait_check_def Let_def split: option.splits list.splits if_splits)

lemma keyed_check:
  assumes "keyed mb"
  shows "keyed (snd (wait_check mb can_id deadline now stop))"
proof (rule keyedI)
  fix k q x
  assume "snd (wait_check mb can_id deadline now stop) k = Some q" and x: "x \<in> set q"
  then obtain q0 where "mb k = Some q0" "set q \<subseteq> set q0"
    using wait_check_queue by blast
  then show "rx_classify (fst x) = Enqueue k x"
    using keyedD [OF assms] x by blast
qed

lemma keyed_step: "keyed mb \<Longrightarrow> keyed (fst (mux_step mb x))"
proof (cases x)
  case (Rx d)
  assume "keyed mb"
  then show ?thesis using Rx by (simp add: rx_receive_def keyed_rx)
next
  case (Check k d n s)
  assume "keyed mb"
  then have "keyed (snd (wait_check mb k d n s))" by (rule keyed_check)
  then show ?thesis using Check
    by (auto split: prod.splits pass.splits option.splits)
qed

lemma keyed_run: "keyed mb \<Longrightarrow> keyed (fst (mux_run mb ops))"
proof (induction ops arbitrary: mb)
  case Nil
  then show ?case by simp
next
  case (Cons x ops)
  from Cons.prems have "keyed (fst (mux_step mb x))" by (rule keyed_step)
  then have "keyed (fst (mux_run (fst (mux_step mb x)) ops))" by (rule Cons.IH)
  then show ?case by (simp only: mux_run_fst_Cons)
qed

lemma reachable_keyed: "reachable mb \<Longrightarrow> keyed mb"
  by (induction rule: reachable.induct) (simp_all add: keyed_empty keyed_step)

lemma wait_check_returns:
  "keyed mb \<Longrightarrow> wait_check mb X deadline now stop = (Return (Some it), mb') \<Longrightarrow>
     rx_classify (fst it) = Enqueue X it"
proof -
  assume k: "keyed mb" and c: "wait_check mb X deadline now stop = (Return (Some it), mb')"
  from c obtain queue where "mb X = Some (it # queue)"
    by (auto simp: wait_check_def Let_def split: option.splits list.splits if_splits)
  then show ?thesis using keyedD [OF k, of X "it # queue" it] by simp
qed

lemma wait_loop_returns:
  "keyed mb \<Longrightarrow> wait_loop mb X deadline wakeups = Some (Some it, mb') \<Longrightarrow>
     rx_classify (fst it) = Enqueue X it"
proof (induction wakeups arbitrary: mb)
  case Nil
  then show ?case by simp
next
  case (Cons w wakeups)
  obtain now stop during where w: "w = (now, stop, during)" by (cases w)
  obtain p mb1 where c: "wait_check mb X deadline now stop = (p, mb1)"
    by (cases "wait_check mb X deadline now stop")
  have k1: "keyed mb1"
    using keyed_check [OF Cons.prems(1), of X deadline now stop] c by simp
  show ?case
  proof (cases p)
    case (Return r')
    then have "wait_check mb X deadline now stop = (Return (Some it), mb')"
      using Cons.prems(2) w c by simp
    then show ?thesis using Cons.prems(1) by (rule wait_check_returns [rotated])
  next
    case Wait
    then have "wait_loop (fst (mux_run mb1 during)) X deadline wakeups = Some (Some it, mb')"
      using Cons.prems(2) w c by simp
    then show ?thesis using Cons.IH [OF keyed_run [OF k1]] by blast
  qed
qed

text \<open>
  C2: a datagram that \<^verbatim>\<open>wait_for_packet(X, timeout)\<close> returns, called on any mailbox
  the threads can reach, carries the identifier \<open>X\<close>, and \<open>X\<close> is the key under which the
  receive loop enqueues that datagram.
\<close>

theorem wait_for_packet_no_cross_delivery:
  assumes "reachable mb"
    and "wait_for_packet mb X t0 timeout wakeups = Some (Some (packet, info, can_id, payload), mb')"
  shows "can_id = X \<and> rx_classify packet = Enqueue X (packet, info, can_id, payload)"
proof -
  have "rx_classify (fst (packet, info, can_id, payload)) = Enqueue X (packet, info, can_id, payload)"
    using wait_loop_returns [OF reachable_keyed [OF assms(1)]] assms(2)
    unfolding wait_for_packet_def by blast
  then have c: "rx_classify packet = Enqueue X (packet, info, can_id, payload)" by simp
  then show ?thesis using rx_classify_Enqueue_id by blast
qed

theorem wait_for_packet_no_cross_delivery_witness:
  "reachable (fst (mux_step (fst (mux_step Map.empty
       (Rx [0x08, 0x00, 0x00, 0x01, 0x23, 1, 2, 3, 4, 5, 6, 7, 8])))
       (Rx [0x08, 0x00, 0x00, 0x04, 0x56, 9, 9, 9, 9, 9, 9, 9, 9]))) \<and>
   wait_for_packet (fst (mux_step (fst (mux_step Map.empty
       (Rx [0x08, 0x00, 0x00, 0x01, 0x23, 1, 2, 3, 4, 5, 6, 7, 8])))
       (Rx [0x08, 0x00, 0x00, 0x04, 0x56, 9, 9, 9, 9, 9, 9, 9, 9])))
     0x456 0 0.5 [(0.1, False, [])] \<noteq> None \<and>
   (case wait_for_packet (fst (mux_step (fst (mux_step Map.empty
       (Rx [0x08, 0x00, 0x00, 0x01, 0x23, 1, 2, 3, 4, 5, 6, 7, 8])))
       (Rx [0x08, 0x00, 0x00, 0x04, 0x56, 9, 9, 9, 9, 9, 9, 9, 9])))
     0x456 0 0.5 [(0.1, False, [])] of
      Some (Some (packet, info, can_id, payload), mb') \<Rightarrow>
        can_id = 0x456 \<and> packet = [0x08, 0x00, 0x00, 0x04, 0x56, 9, 9, 9, 9, 9, 9, 9, 9]
    | _ \<Rightarrow> False)"
proof -
  let ?p1 = "[0x08, 0x00, 0x00, 0x01, 0x23, 1, 2, 3, 4, 5, 6, 7, 8] :: bytes"
  let ?p2 = "[0x08, 0x00, 0x00, 0x04, 0x56, 9, 9, 9, 9, 9, 9, 9, 9] :: bytes"
  let ?it2 = "(?p2, 8::int, 0x456::int, [9, 9, 9, 9, 9, 9, 9, 9] :: bytes)"
  let ?mb = "fst (mux_step (fst (mux_step Map.empty (Rx ?p1))) (Rx ?p2))"
  have r: "reachable ?mb"
    by (intro reachable_step reachable_init)
  have c1: "rx_classify ?p1 = Enqueue 0x123 (?p1, 8, 0x123, [1, 2, 3, 4, 5, 6, 7, 8])"
    by (simp add: rx_classify_def UDP_STRUCT_unpack_def UDP_STRUCT_size_def be_uint_def)
  have c2: "rx_classify ?p2 = Enqueue 0x456 ?it2"
    by (simp add: rx_classify_def UDP_STRUCT_unpack_def UDP_STRUCT_size_def be_uint_def)
  have q: "?mb = [0x123 \<mapsto> [(?p1, 8, 0x123, [1, 2, 3, 4, 5, 6, 7, 8])], 0x456 \<mapsto> [?it2]]"
    by (simp add: rx_receive_def rx_datagram_def c1 c2 mailbox_append_def)
  have w: "wait_for_packet ?mb 0x456 0 0.5 [(0.1, False, [])] =
             Some (Some ?it2, ?mb(0x456 := None))"
    unfolding q by (simp add: wait_for_packet_def wait_check_def)
  have "(0x456::int) = 0x456 \<and> rx_classify ?p2 = Enqueue 0x456 ?it2"
    using wait_for_packet_no_cross_delivery [OF r w] by simp
  then show ?thesis using r w by simp
qed

section \<open>Queues are first in, first out\<close>

lemma enqueued_append: "enqueued (a @ b) = enqueued a @ enqueued b"
  by (induction a rule: enqueued.induct) simp_all

lemma delivered_append: "delivered (a @ b) = delivered a @ delivered b"
  by (induction a rule: delivered.induct) simp_all

lemma of_key_append: "of_key k (a @ b) = of_key k a @ of_key k b"
  by (simp add: of_key_def)

lemma queue_of_check:
  "wait_check mb X deadline now stop = (p, mb') \<Longrightarrow>
     (case p of
        Return (Some it) \<Rightarrow> queue_of mb X = it # queue_of mb' X
      | _ \<Rightarrow> queue_of mb' X = queue_of mb X) \<and>
     (\<forall>k. k \<noteq> X \<longrightarrow> queue_of mb' k = queue_of mb k)"
  by (auto simp: wait_check_def queue_of_def Let_def split: option.splits list.splits if_splits)

lemma step_fifo:
  "mux_step mb x = (mb', evs) \<Longrightarrow>
     of_key k (delivered evs) @ queue_of mb' k = queue_of mb k @ of_key k (enqueued evs)"
proof (cases x)
  case (Rx d)
  assume "mux_step mb x = (mb', evs)"
  then show ?thesis using Rx
    by (cases "rx_classify (take 64 d)")
       (auto simp: rx_receive_def rx_datagram_def queue_of_append of_key_def)
next
  case (Check X d n s)
  assume st: "mux_step mb x = (mb', evs)"
  obtain p mb1 where c: "wait_check mb X d n s = (p, mb1)" by (cases "wait_check mb X d n s")
  from queue_of_check [OF c] st Check c show ?thesis
    by (cases p; cases "k = X") (auto simp: of_key_def split: option.splits)
qed

lemma run_fifo:
  "mux_run mb ops = (mb', evs) \<Longrightarrow>
     of_key k (delivered evs) @ queue_of mb' k = queue_of mb k @ of_key k (enqueued evs)"
proof (induction ops arbitrary: mb mb' evs)
  case Nil
  then show ?case by (simp add: of_key_def)
next
  case (Cons x ops)
  obtain mb1 ev1 where s: "mux_step mb x = (mb1, ev1)" by (cases "mux_step mb x")
  obtain mb2 ev2 where r: "mux_run mb1 ops = (mb2, ev2)" by (cases "mux_run mb1 ops")
  have e: "mb' = mb2" "evs = ev1 @ ev2" using Cons.prems s r by simp_all
  have "of_key k (delivered evs) @ queue_of mb' k
          = of_key k (delivered ev1) @ (of_key k (delivered ev2) @ queue_of mb2 k)"
    by (simp add: e delivered_append of_key_append)
  also have "\<dots> = of_key k (delivered ev1) @ (queue_of mb1 k @ of_key k (enqueued ev2))"
    by (simp only: Cons.IH [OF r])
  also have "\<dots> = (of_key k (delivered ev1) @ queue_of mb1 k) @ of_key k (enqueued ev2)"
    by simp
  also have "\<dots> = (queue_of mb k @ of_key k (enqueued ev1)) @ of_key k (enqueued ev2)"
    by (simp only: step_fifo [OF s])
  also have "\<dots> = queue_of mb k @ of_key k (enqueued evs)"
    by (simp add: e enqueued_append of_key_append)
  finally show ?case .
qed

lemma count_of_key: "count (mset xs) (k, it) = count (mset (of_key k xs)) it"
  by (induction xs) (auto simp: of_key_def)

lemma run_delivered_le:
  assumes "mux_run Map.empty ops = (mb', evs)"
  shows "mset (delivered evs) \<subseteq># mset (enqueued evs)"
proof (rule mset_subset_eqI)
  fix a :: "int \<times> item"
  obtain k it where a: "a = (k, it)" by (cases a)
  have "of_key k (delivered evs) @ queue_of mb' k = of_key k (enqueued evs)"
    using run_fifo [OF assms, of k] by (simp add: queue_of_def)
  then have "mset (of_key k (delivered evs)) + mset (queue_of mb' k) = mset (of_key k (enqueued evs))"
    by (metis mset_append)
  then have "count (mset (of_key k (delivered evs))) it \<le> count (mset (of_key k (enqueued evs))) it"
    by (metis count_union le_add1)
  then show "count (mset (delivered evs)) a \<le> count (mset (enqueued evs)) a"
    by (simp only: a count_of_key)
qed

lemma distinct_submset:
  fixes xs ys :: "'a list"
  assumes "mset xs \<subseteq># mset ys" and "distinct ys"
  shows "distinct xs"
  unfolding distinct_count_atmost_1
proof
  fix a :: 'a
  have "count (mset xs) a \<le> count (mset ys) a"
    using assms(1) by (rule mset_subset_eq_count)
  also have "\<dots> \<le> 1"
    using assms(2) unfolding distinct_count_atmost_1 by (cases "a \<in> set ys") simp_all
  finally have le: "count (mset xs) a \<le> 1" .
  show "count (mset xs) a = (if a \<in> set xs then 1 else 0)"
  proof (cases "a \<in> set xs")
    case True
    then have "count (mset xs) a \<noteq> 0" by (simp add: count_eq_zero_iff)
    then have "count (mset xs) a = 1" using le by linarith
    then show ?thesis using True by simp
  next
    case False
    then show ?thesis by (simp add: count_eq_zero_iff)
  qed
qed

text \<open>
  C3: an entry that a pass of \<^verbatim>\<open>wait_for_packet\<close> returns is taken off the head of
  its queue in that same step, made with the lock held, and the other queues are left as they
  are; so in every run of the threads from the empty mailbox no datagram is delivered more
  often than it was enqueued, and datagrams that are all different are delivered at most once
  each.
\<close>

theorem delivered_at_most_once:
  "(wait_check mb X deadline now stop = (Return (Some it), mb1) \<longrightarrow>
      queue_of mb X = it # queue_of mb1 X \<and> (\<forall>k. k \<noteq> X \<longrightarrow> queue_of mb1 k = queue_of mb k)) \<and>
   mset (delivered (snd (mux_run Map.empty ops))) \<subseteq># mset (enqueued (snd (mux_run Map.empty ops))) \<and>
   (distinct (enqueued (snd (mux_run Map.empty ops))) \<longrightarrow>
      distinct (delivered (snd (mux_run Map.empty ops))))"
proof -
  have a: "wait_check mb X deadline now stop = (Return (Some it), mb1) \<longrightarrow>
      queue_of mb X = it # queue_of mb1 X \<and> (\<forall>k. k \<noteq> X \<longrightarrow> queue_of mb1 k = queue_of mb k)"
    using queue_of_check [of mb X deadline now stop "Return (Some it)" mb1] by simp
  have b: "mset (delivered (snd (mux_run Map.empty ops))) \<subseteq># mset (enqueued (snd (mux_run Map.empty ops)))"
    using run_delivered_le [of ops "fst (mux_run Map.empty ops)" "snd (mux_run Map.empty ops)"] by simp
  have c: "distinct (enqueued (snd (mux_run Map.empty ops))) \<longrightarrow>
      distinct (delivered (snd (mux_run Map.empty ops)))"
    using distinct_submset [OF b] by blast
  show ?thesis using a b c by blast
qed

theorem delivered_at_most_once_witness:
  "wait_check [0x123 \<mapsto> [([0x08, 0x00, 0x00, 0x01, 0x23, 1, 2, 3, 4, 5, 6, 7, 8], 8, 0x123,
                            [1, 2, 3, 4, 5, 6, 7, 8])]] 0x123 0.5 0.1 False =
     (Return (Some ([0x08, 0x00, 0x00, 0x01, 0x23, 1, 2, 3, 4, 5, 6, 7, 8], 8, 0x123,
                    [1, 2, 3, 4, 5, 6, 7, 8])), Map.empty) \<and>
   queue_of [0x123 \<mapsto> [([0x08, 0x00, 0x00, 0x01, 0x23, 1, 2, 3, 4, 5, 6, 7, 8], 8, 0x123,
                          [1, 2, 3, 4, 5, 6, 7, 8])]] 0x123 =
     ([0x08, 0x00, 0x00, 0x01, 0x23, 1, 2, 3, 4, 5, 6, 7, 8], 8, 0x123, [1, 2, 3, 4, 5, 6, 7, 8])
       # queue_of Map.empty 0x123 \<and>
   enqueued (snd (mux_run Map.empty
      [Rx [0x08, 0x00, 0x00, 0x01, 0x23, 1, 2, 3, 4, 5, 6, 7, 8],
       Check 0x123 0.5 0.1 False, Check 0x123 0.5 0.2 False])) =
     [(0x123, ([0x08, 0x00, 0x00, 0x01, 0x23, 1, 2, 3, 4, 5, 6, 7, 8], 8, 0x123,
               [1, 2, 3, 4, 5, 6, 7, 8]))] \<and>
   delivered (snd (mux_run Map.empty
      [Rx [0x08, 0x00, 0x00, 0x01, 0x23, 1, 2, 3, 4, 5, 6, 7, 8],
       Check 0x123 0.5 0.1 False, Check 0x123 0.5 0.2 False])) =
     [(0x123, ([0x08, 0x00, 0x00, 0x01, 0x23, 1, 2, 3, 4, 5, 6, 7, 8], 8, 0x123,
               [1, 2, 3, 4, 5, 6, 7, 8]))] \<and>
   distinct (delivered (snd (mux_run Map.empty
      [Rx [0x08, 0x00, 0x00, 0x01, 0x23, 1, 2, 3, 4, 5, 6, 7, 8],
       Check 0x123 0.5 0.1 False, Check 0x123 0.5 0.2 False])))"
proof -
  let ?p = "[0x08, 0x00, 0x00, 0x01, 0x23, 1, 2, 3, 4, 5, 6, 7, 8] :: bytes"
  let ?it = "(?p, 8::int, 0x123::int, [1, 2, 3, 4, 5, 6, 7, 8] :: bytes)"
  let ?ops = "[Rx ?p, Check 0x123 0.5 0.1 False, Check 0x123 0.5 0.2 False]"
  have c: "rx_classify ?p = Enqueue 0x123 ?it"
    by (simp add: rx_classify_def UDP_STRUCT_unpack_def UDP_STRUCT_size_def be_uint_def)
  have w: "wait_check [0x123 \<mapsto> [?it]] 0x123 0.5 0.1 False = (Return (Some ?it), Map.empty)"
    by (simp add: wait_check_def)
  have w2: "wait_check Map.empty 0x123 0.5 0.2 False = (Wait, Map.empty)"
    by (simp add: wait_check_def)
  have r: "mux_run Map.empty ?ops = (Map.empty, [Enqueued 0x123 ?it, Delivered 0x123 ?it])"
    by (simp add: rx_receive_def rx_datagram_def c mailbox_append_def wait_check_def)
  have d: "distinct (enqueued (snd (mux_run Map.empty ?ops)))"
    unfolding r by simp
  have q: "queue_of [0x123 \<mapsto> [?it]] 0x123 = ?it # queue_of Map.empty 0x123"
    using delivered_at_most_once
      [where mb = "[0x123 \<mapsto> [?it]]" and X = "0x123" and deadline = "0.5" and now = "0.1"
         and stop = False and it = ?it and ?mb1.0 = Map.empty] w
    by blast
  have "distinct (delivered (snd (mux_run Map.empty ?ops)))"
    using delivered_at_most_once [where ops = ?ops] d by blast
  moreover have "enqueued (snd (mux_run Map.empty ?ops)) = [(0x123, ?it)]"
    unfolding r by simp
  moreover have "delivered (snd (mux_run Map.empty ?ops)) = [(0x123, ?it)]"
    unfolding r by simp
  ultimately show ?thesis using w q by blast
qed

section \<open>Datagrams of the wrong size\<close>

lemma short_step: "length d < 13 \<Longrightarrow> mux_step mb (Rx d) = (mb, [])"
  by (simp add: rx_receive_def rx_datagram_def rx_classify_short)

lemma short_run:
  "\<forall>x \<in> set ops. \<exists>d. x = Rx d \<and> length d < 13 \<Longrightarrow> mux_run mb ops = (mb, [])"
proof (induction ops)
  case Nil
  then show ?case by simp
next
  case (Cons x ops)
  then obtain d where "x = Rx d" "length d < 13" by auto
  then have "mux_step mb x = (mb, [])" by (simp only: short_step)
  moreover have "mux_run mb ops = (mb, [])" using Cons by simp
  ultimately show ?case by simp
qed

lemma short_wait_loop:
  assumes "mb X = None"
    and "\<forall>w \<in> set wakeups. \<forall>x \<in> set (snd (snd w)). \<exists>d. x = Rx d \<and> length d < 13"
    and "\<exists>w \<in> set wakeups. deadline \<le> fst w \<or> fst (snd w)"
  shows "wait_loop mb X deadline wakeups = Some (None, mb)"
  using assms(2,3)
proof (induction wakeups)
  case Nil
  then show ?case by simp
next
  case (Cons w wakeups)
  obtain now stop during where w: "w = (now, stop, during)" by (cases w)
  show ?case
  proof (cases "deadline \<le> now \<or> stop")
    case True
    then show ?thesis using assms(1) w by (auto simp: wait_check_def)
  next
    case False
    then have c: "wait_check mb X deadline now stop = (Wait, mb)"
      using assms(1) by (simp add: wait_check_def)
    have "mux_run mb during = (mb, [])"
      using Cons.prems(1) w by (intro short_run) simp
    moreover have "wait_loop mb X deadline wakeups = Some (None, mb)"
      using Cons.IH Cons.prems False w by auto
    ultimately show ?thesis using c w by simp
  qed
qed

text \<open>
  C1, as the code has it: a datagram shorter than 13 bytes is discarded by the receive round
  and nothing is enqueued; and a caller of \<^verbatim>\<open>wait_for_packet\<close> whose identifier has
  no queue, while only such datagrams arrive, gets \<open>None\<close> (the timeout) at the first pass
  that finds the deadline passed or the stop flag set.
\<close>

theorem short_datagram_discarded:
  "(length dgram < 13 \<longrightarrow>
      rx_classify (take 64 dgram) = Discard \<and> rx_receive mb dgram = mb \<and>
      mux_step mb (Rx dgram) = (mb, [])) \<and>
   (mb X = None \<and>
    (\<forall>w \<in> set wakeups. \<forall>x \<in> set (snd (snd w)). \<exists>d. x = Rx d \<and> length d < 13) \<and>
    (\<exists>w \<in> set wakeups. t0 + timeout \<le> fst w \<or> fst (snd w)) \<longrightarrow>
      wait_for_packet mb X t0 timeout wakeups = Some (None, mb))"
proof -
  have "length dgram < 13 \<longrightarrow>
      rx_classify (take 64 dgram) = Discard \<and> rx_receive mb dgram = mb \<and>
      mux_step mb (Rx dgram) = (mb, [])"
    by (simp add: rx_receive_def rx_datagram_def rx_classify_short)
  then show ?thesis
    unfolding wait_for_packet_def using short_wait_loop [of mb X wakeups "t0 + timeout"] by blast
qed

theorem short_datagram_discarded_witness:
  "length [0x08 :: 8 word, 0x00, 0x00, 0x01, 0x23, 1, 2, 3, 4, 5, 6, 7] < 13 \<and>
   rx_receive Map.empty [0x08, 0x00, 0x00, 0x01, 0x23, 1, 2, 3, 4, 5, 6, 7] = Map.empty \<and>
   wait_for_packet Map.empty 0x123 0 0.5
     [(0.1, False, [Rx [0x08, 0x00, 0x00, 0x01, 0x23, 1, 2, 3, 4, 5, 6, 7]]), (0.6, False, [])] =
     Some (None, Map.empty)"
proof -
  let ?d = "[0x08, 0x00, 0x00, 0x01, 0x23, 1, 2, 3, 4, 5, 6, 7] :: bytes"
  let ?w = "[(0.1, False, [Rx ?d]), (0.6, False, [])] :: wakeup list"
  have l: "length ?d < 13" by simp
  have a: "rx_receive Map.empty ?d = Map.empty"
    using short_datagram_discarded [where dgram = ?d and mb = Map.empty] l by blast
  have h1: "(Map.empty :: mailbox) 0x123 = None" by simp
  have h2: "\<forall>w \<in> set ?w. \<forall>x \<in> set (snd (snd w)). \<exists>d. x = Rx d \<and> length d < 13" by simp
  have h3: "\<exists>w \<in> set ?w. (0::real) + 0.5 \<le> fst w \<or> fst (snd w)" by simp
  have b: "wait_for_packet Map.empty 0x123 0 0.5 ?w = Some (None, Map.empty)"
    using short_datagram_discarded
      [where mb = Map.empty and X = "0x123" and wakeups = ?w and ?t0.0 = 0 and timeout = "0.5"]
      h1 h2 h3
    by blast
  show ?thesis using l a b by blast
qed

text \<open>
  A datagram of 14 bytes is no datagram of exactly 13 bytes, yet the receive round enqueues it
  under the identifier in its first 13 bytes, and a caller waiting for that identifier
  receives it.
\<close>

theorem longer_datagram_counterexample:
  "length [0x08 :: 8 word, 0x00, 0x00, 0x01, 0x23, 1, 2, 3, 4, 5, 6, 7, 8, 0xFF] \<noteq> 13 \<and>
   rx_receive Map.empty [0x08, 0x00, 0x00, 0x01, 0x23, 1, 2, 3, 4, 5, 6, 7, 8, 0xFF] =
     [0x123 \<mapsto> [([0x08, 0x00, 0x00, 0x01, 0x23, 1, 2, 3, 4, 5, 6, 7, 8, 0xFF], 8, 0x123,
                  [1, 2, 3, 4, 5, 6, 7, 8])]] \<and>
   wait_for_packet
     (rx_receive Map.empty [0x08, 0x00, 0x00, 0x01, 0x23, 1, 2, 3, 4, 5, 6, 7, 8, 0xFF])
     0x123 0 0.5 [(0.1, False, [])] =
     Some (Some ([0x08, 0x00, 0x00, 0x01, 0x23, 1, 2, 3, 4, 5, 6, 7, 8, 0xFF], 8, 0x123,
                 [1, 2, 3, 4, 5, 6, 7, 8]), Map.empty)"
proof -
  let ?d = "[0x08, 0x00, 0x00, 0x01, 0x23, 1, 2, 3, 4, 5, 6, 7, 8, 0xFF] :: bytes"
  let ?it = "(?d, 8::int, 0x123::int, [1, 2, 3, 4, 5, 6, 7, 8] :: bytes)"
  have c: "rx_classify ?d = Enqueue 0x123 ?it"
    by (simp add: rx_classify_def UDP_STRUCT_unpack_def UDP_STRUCT_size_def be_uint_def)
  have r: "rx_receive Map.empty ?d = [0x123 \<mapsto> [?it]]"
    by (simp add: rx_receive_def rx_datagram_def c mailbox_append_def)
  have w: "wait_for_packet [0x123 \<mapsto> [?it]] 0x123 0 0.5 [(0.1, False, [])] =
             Some (Some ?it, Map.empty)"
    by (simp add: wait_for_packet_def wait_check_def)
  have l: "length ?d \<noteq> 13" by simp
  have w': "wait_for_packet (rx_receive Map.empty ?d) 0x123 0 0.5 [(0.1, False, [])] =
              Some (Some ?it, Map.empty)"
    unfolding r by (rule w)
  show ?thesis using l r w' by blast
qed

section \<open>The test cycle\<close>

lemma cycle_can_send_fails:
  assumes "CAN_STRUCT_pack bo (base_id OR (if extended then CAN_EFF_FLAG else 0)) 8 [0, 0, 0] payload = Inr frame"
    and "can_send_fails env"
  shows "run_cycle bo stats mb extended base_id payload env =
           Some (Inr (record_outcome stats ''send_error'' base_id, mb, [Slept 0.2]))"
  using assms by (simp add: run_cycle_def)

lemma cycle_data_error:
  assumes "CAN_STRUCT_pack bo (base_id OR (if extended then CAN_EFF_FLAG else 0)) 8 [0, 0, 0] payload = Inr frame"
    and "\<not> can_send_fails env"
    and "wait_for_packet mb base_id (udp_t0 env) 0.5 (udp_wakeups env) =
           Some (Some (packet_bytes, info, packet_id, udp_payload), mb')"
    and "packet_id \<noteq> base_id \<or> udp_payload \<noteq> payload"
  shows "run_cycle bo stats mb extended base_id payload env =
           Some (Inr (record_outcome stats ''data_error'' base_id, mb', [CanSent frame]))"
  using assms by (auto simp: run_cycle_def)

lemma cycle_bridge_send_fails:
  assumes "CAN_STRUCT_pack bo (base_id OR (if extended then CAN_EFF_FLAG else 0)) 8 [0, 0, 0] payload = Inr frame"
    and "\<not> can_send_fails env"
    and "wait_for_packet mb base_id (udp_t0 env) 0.5 (udp_wakeups env) =
           Some (Some (packet_bytes, info, base_id, payload), mb')"
    and "bridge_send_fails env"
  shows "run_cycle bo stats mb extended base_id payload env =
           Some (Inr (record_outcome stats ''send_error'' base_id, mb', [CanSent frame]))"
  using assms by (simp add: run_cycle_def)

lemma cycle_can_echo:
  assumes "CAN_STRUCT_pack bo (base_id OR (if extended then CAN_EFF_FLAG else 0)) 8 [0, 0, 0] payload = Inr frame"
    and "\<not> can_send_fails env"
    and "wait_for_packet mb base_id (udp_t0 env) 0.5 (udp_wakeups env) =
           Some (Some (packet_bytes, info, base_id, payload), mb')"
    and "\<not> bridge_send_fails env"
    and "wait_for_can_echo bo base_id payload (can_t0 env) 0.5 (can_polls env) = Some (Inr found)"
  shows "run_cycle bo stats mb extended base_id payload env =
           Some (Inr (record_outcome stats (if found then ''success'' else ''can_timeout'') base_id,
                      mb', [CanSent frame, UdpSent packet_bytes]))"
  using assms by (simp add: run_cycle_def)

lemma record_data_error:
  "data_errors (record_outcome stats ''data_error'' i) = data_errors stats + 1 \<and>
   success (record_outcome stats ''data_error'' i) = success stats \<and>
   total_stat (record_outcome stats ''data_error'' i) = total_stat stats + 1"
  by (simp add: record_outcome_def)

lemma record_send_error:
  "send_errors (record_outcome stats ''send_error'' i) = send_errors stats + 1 \<and>
   success (record_outcome stats ''send_error'' i) = success stats \<and>
   total_stat (record_outcome stats ''send_error'' i) = total_stat stats + 1"
  by (simp add: record_outcome_def)

lemma record_can_timeout:
  "can_timeouts (record_outcome stats ''can_timeout'' i) = can_timeouts stats + 1 \<and>
   success (record_outcome stats ''can_timeout'' i) = success stats \<and>
   total_stat (record_outcome stats ''can_timeout'' i) = total_stat stats + 1"
  by (simp add: record_outcome_def)

text \<open>
  C4: in a cycle whose CAN frame was sent and whose \<^verbatim>\<open>wait_for_packet\<close> returned a
  datagram with an identifier or a payload other than the ones sent, the tester records
  \<^verbatim>\<open>data_error\<close> and not \<^verbatim>\<open>success\<close>, and the cycle ends there: the datagram is
  gone from the mailbox, nothing is sent back to the bridge and no second wait is made.
\<close>

theorem mismatch_records_data_error:
  assumes "CAN_STRUCT_pack bo (base_id OR (if extended then CAN_EFF_FLAG else 0)) 8 [0, 0, 0] payload = Inr frame"
    and "\<not> can_send_fails env"
    and "wait_for_packet mb base_id (udp_t0 env) 0.5 (udp_wakeups env) =
           Some (Some (packet_bytes, info, packet_id, udp_payload), mb')"
    and "packet_id \<noteq> base_id \<or> udp_payload \<noteq> payload"
  shows "run_cycle bo stats mb extended base_id payload env =
           Some (Inr (record_outcome stats ''data_error'' base_id, mb', [CanSent frame])) \<and>
         data_errors (record_outcome stats ''data_error'' base_id) = data_errors stats + 1 \<and>
         success (record_outcome stats ''data_error'' base_id) = success stats \<and>
         total_stat (record_outcome stats ''data_error'' base_id) = total_stat stats + 1"
  using cycle_data_error [OF assms] record_data_error by blast

theorem mismatch_records_data_error_witness:
  "run_cycle LittleEndian (ChannelStats_init ''vcan0@UDP5555#ch0'' 0 0x7FF)
     [0x123 \<mapsto> [([0x08, 0x00, 0x00, 0x01, 0x23, 9, 9, 9, 9, 9, 9, 9, 9], 8, 0x123,
                  [9, 9, 9, 9, 9, 9, 9, 9])]]
     False 0x123 [1, 2, 3, 4, 5, 6, 7, 8]
     \<lparr>can_send_fails = False, udp_t0 = 0, udp_wakeups = [(0.1, False, [])],
      bridge_send_fails = False, can_t0 = 0, can_polls = []\<rparr> =
   Some (Inr (record_outcome (ChannelStats_init ''vcan0@UDP5555#ch0'' 0 0x7FF) ''data_error'' 0x123,
              Map.empty, [CanSent [0x23, 0x01, 0, 0, 8, 0, 0, 0, 1, 2, 3, 4, 5, 6, 7, 8]])) \<and>
   data_errors (record_outcome (ChannelStats_init ''vcan0@UDP5555#ch0'' 0 0x7FF) ''data_error'' 0x123) = 1 \<and>
   success (record_outcome (ChannelStats_init ''vcan0@UDP5555#ch0'' 0 0x7FF) ''data_error'' 0x123) = 0"
proof -
  let ?env = "\<lparr>can_send_fails = False, udp_t0 = 0, udp_wakeups = [(0.1, False, [])],
      bridge_send_fails = False, can_t0 = 0, can_polls = []\<rparr>"
  let ?it = "([0x08, 0x00, 0x00, 0x01, 0x23, 9, 9, 9, 9, 9, 9, 9, 9], 8, 0x123,
                  [9, 9, 9, 9, 9, 9, 9, 9]) :: item"
  have p: "CAN_STRUCT_pack LittleEndian (0x123 OR (if False then CAN_EFF_FLAG else 0)) 8 [0, 0, 0]
             [1, 2, 3, 4, 5, 6, 7, 8] = Inr [0x23, 0x01, 0, 0, 8, 0, 0, 0, 1, 2, 3, 4, 5, 6, 7, 8]"
    by (simp add: CAN_STRUCT_pack_def native_bytes4_def le_bytes4_def fit_def)
  have s: "\<not> can_send_fails ?env" by simp
  have w: "wait_for_packet [0x123 \<mapsto> [?it]] 0x123 (udp_t0 ?env) 0.5 (udp_wakeups ?env) =
             Some (Some ([0x08, 0x00, 0x00, 0x01, 0x23, 9, 9, 9, 9, 9, 9, 9, 9], 8, 0x123,
                  [9, 9, 9, 9, 9, 9, 9, 9]), Map.empty)"
    by (simp add: wait_for_packet_def wait_check_def)
  have d: "(0x123::int) \<noteq> 0x123 \<or> [9, 9, 9, 9, 9, 9, 9, 9] \<noteq> ([1, 2, 3, 4, 5, 6, 7, 8] :: bytes)"
    by simp
  have i: "data_errors (ChannelStats_init ''vcan0@UDP5555#ch0'' 0 0x7FF) = 0"
          "success (ChannelStats_init ''vcan0@UDP5555#ch0'' 0 0x7FF) = 0"
    by (simp_all add: ChannelStats_init_def)
  show ?thesis
    using mismatch_records_data_error [OF p s w d, of "ChannelStats_init ''vcan0@UDP5555#ch0'' 0 0x7FF"] i
    by simp
qed

text \<open>
  C5, as the code has it: a failed CAN transmit makes the cycle record \<^verbatim>\<open>send_error\<close>,
  sleep 0.2 seconds and end, with no wait made; a failed echo to the bridge makes the cycle
  record \<^verbatim>\<open>send_error\<close> and end, with no wait for the CAN echo.
\<close>

theorem send_failure_records_send_error:
  "(CAN_STRUCT_pack bo (base_id OR (if extended then CAN_EFF_FLAG else 0)) 8 [0, 0, 0] payload = Inr frame \<and>
    can_send_fails env \<longrightarrow>
      run_cycle bo stats mb extended base_id payload env =
        Some (Inr (record_outcome stats ''send_error'' base_id, mb, [Slept 0.2]))) \<and>
   (CAN_STRUCT_pack bo (base_id OR (if extended then CAN_EFF_FLAG else 0)) 8 [0, 0, 0] payload = Inr frame \<and>
    \<not> can_send_fails env \<and>
    wait_for_packet mb base_id (udp_t0 env) 0.5 (udp_wakeups env) =
      Some (Some (packet_bytes, info, base_id, payload), mb') \<and>
    bridge_send_fails env \<longrightarrow>
      run_cycle bo stats mb extended base_id payload env =
        Some (Inr (record_outcome stats ''send_error'' base_id, mb', [CanSent frame]))) \<and>
   send_errors (record_outcome stats ''send_error'' base_id) = send_errors stats + 1 \<and>
   success (record_outcome stats ''send_error'' base_id) = success stats \<and>
   total_stat (record_outcome stats ''send_error'' base_id) = total_stat stats + 1"
  using cycle_can_send_fails [of bo base_id extended payload frame env stats mb]
    cycle_bridge_send_fails [of bo base_id extended payload frame env mb packet_bytes info mb' stats]
    record_send_error [of stats base_id]
  by blast

theorem send_failure_records_send_error_witness:
  "run_cycle LittleEndian (ChannelStats_init ''vcan0@UDP5555#ch0'' 0 0x7FF) Map.empty
     False 0x123 [1, 2, 3, 4, 5, 6, 7, 8]
     \<lparr>can_send_fails = True, udp_t0 = 0, udp_wakeups = [], bridge_send_fails = False,
      can_t0 = 0, can_polls = []\<rparr> =
   Some (Inr (record_outcome (ChannelStats_init ''vcan0@UDP5555#ch0'' 0 0x7FF) ''send_error'' 0x123,
              Map.empty, [Slept 0.2])) \<and>
   run_cycle LittleEndian (ChannelStats_init ''vcan0@UDP5555#ch0'' 0 0x7FF)
     [0x123 \<mapsto> [([0x08, 0x00, 0x00, 0x01, 0x23, 1, 2, 3, 4, 5, 6, 7, 8], 8, 0x123,
                  [1, 2, 3, 4, 5, 6, 7, 8])]]
     False 0x123 [1, 2, 3, 4, 5, 6, 7, 8]
     \<lparr>can_send_fails = False, udp_t0 = 0, udp_wakeups = [(0.1, False, [])],
      bridge_send_fails = True, can_t0 = 0, can_polls = []\<rparr> =
   Some (Inr (record_outcome (ChannelStats_init ''vcan0@UDP5555#ch0'' 0 0x7FF) ''send_error'' 0x123,
              Map.empty, [CanSent [0x23, 0x01, 0, 0, 8, 0, 0, 0, 1, 2, 3, 4, 5, 6, 7, 8]])) \<and>
   send_errors (record_outcome (ChannelStats_init ''vcan0@UDP5555#ch0'' 0 0x7FF) ''send_error'' 0x123) = 1"
proof -
  let ?st = "ChannelStats_init ''vcan0@UDP5555#ch0'' 0 0x7FF"
  let ?e1 = "\<lparr>can_send_fails = True, udp_t0 = 0, udp_wakeups = [], bridge_send_fails = False,
      can_t0 = 0, can_polls = []\<rparr>"
  let ?e2 = "\<lparr>can_send_fails = False, udp_t0 = 0, udp_wakeups = [(0.1, False, [])],
      bridge_send_fails = True, can_t0 = 0, can_polls = []\<rparr>"
  let ?p = "[0x08, 0x00, 0x00, 0x01, 0x23, 1, 2, 3, 4, 5, 6, 7, 8] :: bytes"
  let ?it = "(?p, 8::int, 0x123::int, [1, 2, 3, 4, 5, 6, 7, 8] :: bytes)"
  let ?frame = "[0x23, 0x01, 0, 0, 8, 0, 0, 0, 1, 2, 3, 4, 5, 6, 7, 8] :: bytes"
  have p: "CAN_STRUCT_pack LittleEndian (0x123 OR (if False then CAN_EFF_FLAG else 0)) 8 [0, 0, 0]
             [1, 2, 3, 4, 5, 6, 7, 8] = Inr ?frame"
    by (simp add: CAN_STRUCT_pack_def native_bytes4_def le_bytes4_def fit_def)
  have f1: "can_send_fails ?e1" by simp
  have a: "run_cycle LittleEndian ?st Map.empty False 0x123 [1, 2, 3, 4, 5, 6, 7, 8] ?e1 =
             Some (Inr (record_outcome ?st ''send_error'' 0x123, Map.empty, [Slept 0.2]))"
    using send_failure_records_send_error
      [where bo = LittleEndian and base_id = "0x123" and extended = False
         and payload = "[1, 2, 3, 4, 5, 6, 7, 8]" and frame = ?frame and env = ?e1
         and stats = ?st and mb = Map.empty] p f1
    by blast
  have s2: "\<not> can_send_fails ?e2" by simp
  have f2: "bridge_send_fails ?e2" by simp
  have w: "wait_for_packet [0x123 \<mapsto> [?it]] 0x123 (udp_t0 ?e2) 0.5 (udp_wakeups ?e2) =
             Some (Some (?p, 8, 0x123, [1, 2, 3, 4, 5, 6, 7, 8]), Map.empty)"
    by (simp add: wait_for_packet_def wait_check_def)
  have b: "run_cycle LittleEndian ?st [0x123 \<mapsto> [?it]] False 0x123 [1, 2, 3, 4, 5, 6, 7, 8] ?e2 =
             Some (Inr (record_outcome ?st ''send_error'' 0x123, Map.empty, [CanSent ?frame]))"
    using send_failure_records_send_error
      [where bo = LittleEndian and base_id = "0x123" and extended = False
         and payload = "[1, 2, 3, 4, 5, 6, 7, 8]" and frame = ?frame and env = ?e2
         and stats = ?st and mb = "[0x123 \<mapsto> [?it]]" and packet_bytes = ?p and info = 8
         and mb' = Map.empty] p s2 w f2
    by blast
  have c: "send_errors (record_outcome ?st ''send_error'' 0x123) = 1"
    using send_failure_records_send_error [where stats = ?st and base_id = "0x123"]
    by (simp add: ChannelStats_init_def)
  show ?thesis using a b c by blast
qed

text \<open>
  A cycle whose echo to the bridge fails records \<^verbatim>\<open>send_error\<close> and ends without
  having slept: the next cycle starts at once.
\<close>

theorem echo_failure_no_backoff_counterexample:
  "bridge_send_fails
     \<lparr>can_send_fails = False, udp_t0 = 0, udp_wakeups = [(0.1, False, [])],
      bridge_send_fails = True, can_t0 = 0, can_polls = []\<rparr> \<and>
   run_cycle LittleEndian (ChannelStats_init ''vcan0@UDP5555#ch0'' 0 0x7FF)
     [0x123 \<mapsto> [([0x08, 0x00, 0x00, 0x01, 0x23, 1, 2, 3, 4, 5, 6, 7, 8], 8, 0x123,
                  [1, 2, 3, 4, 5, 6, 7, 8])]]
     False 0x123 [1, 2, 3, 4, 5, 6, 7, 8]
     \<lparr>can_send_fails = False, udp_t0 = 0, udp_wakeups = [(0.1, False, [])],
      bridge_send_fails = True, can_t0 = 0, can_polls = []\<rparr> =
   Some (Inr (record_outcome (ChannelStats_init ''vcan0@UDP5555#ch0'' 0 0x7FF) ''send_error'' 0x123,
              Map.empty, [CanSent [0x23, 0x01, 0, 0, 8, 0, 0, 0, 1, 2, 3, 4, 5, 6, 7, 8]])) \<and>
   \<not> (\<exists>d. Slept d \<in> set [CanSent [0x23, 0x01, 0, 0, 8, 0, 0, 0, 1, 2, 3, 4, 5, 6, 7, 8]])"
proof -
  let ?st = "ChannelStats_init ''vcan0@UDP5555#ch0'' 0 0x7FF"
  let ?e2 = "\<lparr>can_send_fails = False, udp_t0 = 0, udp_wakeups = [(0.1, False, [])],
      bridge_send_fails = True, can_t0 = 0, can_polls = []\<rparr>"
  let ?p = "[0x08, 0x00, 0x00, 0x01, 0x23, 1, 2, 3, 4, 5, 6, 7, 8] :: bytes"
  let ?it = "(?p, 8::int, 0x123::int, [1, 2, 3, 4, 5, 6, 7, 8] :: bytes)"
  let ?frame = "[0x23, 0x01, 0, 0, 8, 0, 0, 0, 1, 2, 3, 4, 5, 6, 7, 8] :: bytes"
  have p: "CAN_STRUCT_pack LittleEndian (0x123 OR (if False then CAN_EFF_FLAG else 0)) 8 [0, 0, 0]
             [1, 2, 3, 4, 5, 6, 7, 8] = Inr ?frame"
    by (simp add: CAN_STRUCT_pack_def native_bytes4_def le_bytes4_def fit_def)
  have s2: "\<not> can_send_fails ?e2" by simp
  have f2: "bridge_send_fails ?e2" by simp
  have w: "wait_for_packet [0x123 \<mapsto> [?it]] 0x123 (udp_t0 ?e2) 0.5 (udp_wakeups ?e2) =
             Some (Some (?p, 8, 0x123, [1, 2, 3, 4, 5, 6, 7, 8]), Map.empty)"
    by (simp add: wait_for_packet_def wait_check_def)
  have b: "run_cycle LittleEndian ?st [0x123 \<mapsto> [?it]] False 0x123 [1, 2, 3, 4, 5, 6, 7, 8] ?e2 =
             Some (Inr (record_outcome ?st ''send_error'' 0x123, Map.empty, [CanSent ?frame]))"
    by (rule cycle_bridge_send_fails [OF p s2 w f2])
  have n: "\<not> (\<exists>d. Slept d \<in> set [CanSent ?frame])" by simp
  show ?thesis using f2 b n by blast
qed

section \<open>Waiting for the CAN echo\<close>

lemma echo_polls_on:
  "polls_on bo eid epl dl p \<Longrightarrow> echo_loop bo eid epl dl (p # rest) = echo_loop bo eid epl dl rest"
  by (cases p) (auto simp: polls_on_def split: recv_result.splits sum.splits)

lemma echo_accepted:
  "accepted_at bo eid epl dl p \<Longrightarrow> echo_loop bo eid epl dl (p # rest) = Some (Inr True)"
  by (cases p) (auto simp: accepted_at_def echo_matches_def split: recv_result.splits sum.splits)

lemma echo_other:
  "\<not> polls_on bo eid epl dl p \<Longrightarrow> \<not> accepted_at bo eid epl dl p \<Longrightarrow>
     echo_loop bo eid epl dl (p # rest) \<noteq> Some (Inr True)"
  by (cases p)
     (auto simp: polls_on_def accepted_at_def echo_matches_def Let_def
           split: recv_result.splits sum.splits)

lemma echo_expired:
  "\<not> stop \<Longrightarrow> dl \<le> now \<Longrightarrow> echo_loop bo eid epl dl ((stop, now, r) # rest) = Some (Inr False)"
  by simp

lemma echo_stopped: "echo_loop bo eid epl dl ((True, now, r) # rest) = Some (Inr False)"
  by simp

lemma echo_oserror:
  "echo_loop bo eid epl dl ((stop, now, RecvOSError) # rest) = Some (Inr False)"
  by simp

lemma echo_skip_prefix:
  "\<forall>q \<in> set pre. polls_on bo eid epl dl q \<Longrightarrow>
     echo_loop bo eid epl dl (pre @ rest) = echo_loop bo eid epl dl rest"
  by (induction pre) (simp_all add: echo_polls_on)

lemma echo_true_iff:
  "echo_loop bo eid epl dl polls = Some (Inr True) \<longleftrightarrow>
     (\<exists>pre p post. polls = pre @ p # post \<and> (\<forall>q \<in> set pre. polls_on bo eid epl dl q) \<and>
        accepted_at bo eid epl dl p)"
proof
  assume "echo_loop bo eid epl dl polls = Some (Inr True)"
  then show "\<exists>pre p post. polls = pre @ p # post \<and> (\<forall>q \<in> set pre. polls_on bo eid epl dl q) \<and>
        accepted_at bo eid epl dl p"
  proof (induction polls)
    case Nil
    then show ?case by simp
  next
    case (Cons p polls)
    show ?case
    proof (cases "accepted_at bo eid epl dl p")
      case True
      then have "p # polls = [] @ p # polls \<and> (\<forall>q \<in> set []. polls_on bo eid epl dl q) \<and>
          accepted_at bo eid epl dl p" by simp
      then show ?thesis by blast
    next
      case False
      then have on: "polls_on bo eid epl dl p" using echo_other Cons.prems by blast
      then have "echo_loop bo eid epl dl polls = Some (Inr True)"
        using Cons.prems by (simp only: echo_polls_on)
      then obtain pre p' post where
        "polls = pre @ p' # post" "\<forall>q \<in> set pre. polls_on bo eid epl dl q" "accepted_at bo eid epl dl p'"
        using Cons.IH by blast
      then have "p # polls = (p # pre) @ p' # post \<and> (\<forall>q \<in> set (p # pre). polls_on bo eid epl dl q) \<and>
          accepted_at bo eid epl dl p'" using on by simp
      then show ?thesis by blast
    qed
  qed
next
  assume "\<exists>pre p post. polls = pre @ p # post \<and> (\<forall>q \<in> set pre. polls_on bo eid epl dl q) \<and>
        accepted_at bo eid epl dl p"
  then obtain pre p post where
    "polls = pre @ p # post" "\<forall>q \<in> set pre. polls_on bo eid epl dl q" "accepted_at bo eid epl dl p"
    by blast
  then show "echo_loop bo eid epl dl polls = Some (Inr True)"
    by (simp add: echo_skip_prefix echo_accepted)
qed

lemma echo_zero_dlc:
  assumes "CAN_STRUCT_unpack bo frame_bytes = Inr (can_id, 0, pad, data)"
    and "can_id AND CAN_EFF_MASK = expected_id" and "\<not> stop" and "now < dl"
  shows "echo_loop bo expected_id expected_payload dl ((stop, now, Received frame_bytes) # rest) =
           Some (Inr True)"
  using assms by (simp add: echo_matches_def)

text \<open>
  C7, as the code has it: \<^verbatim>\<open>_wait_for_can_echo\<close> returns \<open>True\<close> exactly when, after
  rounds that all poll on, a round made before the deadline and with the stop flag clear
  receives a frame whose identifier, cut to its low 29 bits by \<^verbatim>\<open>CAN_EFF_MASK\<close>,
  equals the identifier sent and whose first \<open>dlc\<close> data bytes equal the first \<open>dlc\<close> bytes
  of the payload sent. A round that times out or receives any other frame polls again. When
  the rounds that poll on are followed by one that finds the stop flag set or the budget used
  up, or whose receive fails, the wait returns \<open>False\<close>; and a cycle whose wait returns
  \<open>False\<close> records \<^verbatim>\<open>can_timeout\<close>, one whose wait returns \<open>True\<close> records
  \<^verbatim>\<open>success\<close>.
\<close>

theorem can_echo_accepted_iff:
  "(wait_for_can_echo bo eid epl t0 timeout polls = Some (Inr True) \<longleftrightarrow>
      (\<exists>pre p post. polls = pre @ p # post \<and>
         (\<forall>q \<in> set pre. polls_on bo eid epl (t0 + timeout) q) \<and>
         accepted_at bo eid epl (t0 + timeout) p)) \<and>
   (polls_on bo eid epl (t0 + timeout) p0 \<longrightarrow>
      wait_for_can_echo bo eid epl t0 timeout (p0 # rest) =
      wait_for_can_echo bo eid epl t0 timeout rest) \<and>
   ((\<forall>q \<in> set pre0. polls_on bo eid epl (t0 + timeout) q) \<and>
    (stop \<or> t0 + timeout \<le> now \<or> r = RecvOSError) \<longrightarrow>
      wait_for_can_echo bo eid epl t0 timeout (pre0 @ (stop, now, r) # rest) = Some (Inr False)) \<and>
   (CAN_STRUCT_pack bo (base_id OR (if extended then CAN_EFF_FLAG else 0)) 8 [0, 0, 0] payload = Inr frame \<and>
    \<not> can_send_fails env \<and>
    wait_for_packet mb base_id (udp_t0 env) 0.5 (udp_wakeups env) =
      Some (Some (packet_bytes, info, base_id, payload), mb') \<and>
    \<not> bridge_send_fails env \<and>
    wait_for_can_echo bo base_id payload (can_t0 env) 0.5 (can_polls env) = Some (Inr found) \<longrightarrow>
      run_cycle bo stats mb extended base_id payload env =
        Some (Inr (record_outcome stats (if found then ''success'' else ''can_timeout'') base_id,
                   mb', [CanSent frame, UdpSent packet_bytes])))"
proof -
  have a: "wait_for_can_echo bo eid epl t0 timeout polls = Some (Inr True) \<longleftrightarrow>
      (\<exists>pre p post. polls = pre @ p # post \<and>
         (\<forall>q \<in> set pre. polls_on bo eid epl (t0 + timeout) q) \<and>
         accepted_at bo eid epl (t0 + timeout) p)"
    unfolding wait_for_can_echo_def by (rule echo_true_iff)
  have b: "polls_on bo eid epl (t0 + timeout) p0 \<longrightarrow>
      wait_for_can_echo bo eid epl t0 timeout (p0 # rest) =
      wait_for_can_echo bo eid epl t0 timeout rest"
    unfolding wait_for_can_echo_def using echo_polls_on by blast
  have c: "(\<forall>q \<in> set pre0. polls_on bo eid epl (t0 + timeout) q) \<and>
    (stop \<or> t0 + timeout \<le> now \<or> r = RecvOSError) \<longrightarrow>
      wait_for_can_echo bo eid epl t0 timeout (pre0 @ (stop, now, r) # rest) = Some (Inr False)"
  proof
    assume h: "(\<forall>q \<in> set pre0. polls_on bo eid epl (t0 + timeout) q) \<and>
      (stop \<or> t0 + timeout \<le> now \<or> r = RecvOSError)"
    then have "echo_loop bo eid epl (t0 + timeout) ((stop, now, r) # rest) = Some (Inr False)"
      by auto
    moreover have "echo_loop bo eid epl (t0 + timeout) (pre0 @ (stop, now, r) # rest) =
        echo_loop bo eid epl (t0 + timeout) ((stop, now, r) # rest)"
      using h by (intro echo_skip_prefix) blast
    ultimately show "wait_for_can_echo bo eid epl t0 timeout (pre0 @ (stop, now, r) # rest) = Some (Inr False)"
      unfolding wait_for_can_echo_def by simp
  qed
  have d: "CAN_STRUCT_pack bo (base_id OR (if extended then CAN_EFF_FLAG else 0)) 8 [0, 0, 0] payload = Inr frame \<and>
    \<not> can_send_fails env \<and>
    wait_for_packet mb base_id (udp_t0 env) 0.5 (udp_wakeups env) =
      Some (Some (packet_bytes, info, base_id, payload), mb') \<and>
    \<not> bridge_send_fails env \<and>
    wait_for_can_echo bo base_id payload (can_t0 env) 0.5 (can_polls env) = Some (Inr found) \<longrightarrow>
      run_cycle bo stats mb extended base_id payload env =
        Some (Inr (record_outcome stats (if found then ''success'' else ''can_timeout'') base_id,
                   mb', [CanSent frame, UdpSent packet_bytes]))"
    using cycle_can_echo by blast
  show ?thesis using a b c d by blast
qed

theorem can_echo_accepted_iff_witness:
  "wait_for_can_echo LittleEndian 0x123 [1, 2, 3, 4, 5, 6, 7, 8] 0 0.5
     [(False, 0.1, RecvTimeout),
      (False, 0.2, Received [0x23, 0x01, 0, 0x80, 8, 0, 0, 0, 1, 2, 3, 4, 5, 6, 7, 8])] =
     Some (Inr True) \<and>
   wait_for_can_echo LittleEndian 0x123 [1, 2, 3, 4, 5, 6, 7, 8] 0 0.5
     ((False, 0.1, RecvTimeout) #
      [(False, 0.2, Received [0x23, 0x01, 0, 0x80, 8, 0, 0, 0, 1, 2, 3, 4, 5, 6, 7, 8])]) =
   wait_for_can_echo LittleEndian 0x123 [1, 2, 3, 4, 5, 6, 7, 8] 0 0.5
     [(False, 0.2, Received [0x23, 0x01, 0, 0x80, 8, 0, 0, 0, 1, 2, 3, 4, 5, 6, 7, 8])] \<and>
   wait_for_can_echo LittleEndian 0x123 [1, 2, 3, 4, 5, 6, 7, 8] 0 0.5
     ([(False, 0.1, Received [0x24, 0x01, 0, 0, 8, 0, 0, 0, 1, 2, 3, 4, 5, 6, 7, 8])] @
      (False, 0.6, RecvTimeout) # []) = Some (Inr False) \<and>
   run_cycle LittleEndian (ChannelStats_init ''vcan0@UDP5555#ch0'' 0 0x7FF)
     [0x123 \<mapsto> [([0x08, 0x00, 0x00, 0x01, 0x23, 1, 2, 3, 4, 5, 6, 7, 8], 8, 0x123,
                  [1, 2, 3, 4, 5, 6, 7, 8])]]
     False 0x123 [1, 2, 3, 4, 5, 6, 7, 8]
     \<lparr>can_send_fails = False, udp_t0 = 0, udp_wakeups = [(0.1, False, [])],
      bridge_send_fails = False, can_t0 = 0,
      can_polls = [(False, 0.1, Received [0x24, 0x01, 0, 0, 8, 0, 0, 0, 1, 2, 3, 4, 5, 6, 7, 8])] @
                  (False, 0.6, RecvTimeout) # []\<rparr> =
   Some (Inr (record_outcome (ChannelStats_init ''vcan0@UDP5555#ch0'' 0 0x7FF) ''can_timeout'' 0x123,
              Map.empty,
              [CanSent [0x23, 0x01, 0, 0, 8, 0, 0, 0, 1, 2, 3, 4, 5, 6, 7, 8],
               UdpSent [0x08, 0x00, 0x00, 0x01, 0x23, 1, 2, 3, 4, 5, 6, 7, 8]]))"
proof -
  let ?pl = "[1, 2, 3, 4, 5, 6, 7, 8] :: bytes"
  let ?ok = "[0x23, 0x01, 0, 0x80, 8, 0, 0, 0, 1, 2, 3, 4, 5, 6, 7, 8] :: bytes"
  let ?bad = "[0x24, 0x01, 0, 0, 8, 0, 0, 0, 1, 2, 3, 4, 5, 6, 7, 8] :: bytes"
  let ?frame = "[0x23, 0x01, 0, 0, 8, 0, 0, 0, 1, 2, 3, 4, 5, 6, 7, 8] :: bytes"
  let ?p = "[0x08, 0x00, 0x00, 0x01, 0x23, 1, 2, 3, 4, 5, 6, 7, 8] :: bytes"
  let ?st = "ChannelStats_init ''vcan0@UDP5555#ch0'' 0 0x7FF"
  let ?t = "(False, 0.1, RecvTimeout) :: poll"
  let ?a = "(False, 0.2, Received ?ok) :: poll"
  let ?b = "(False, 0.1, Received ?bad) :: poll"
  let ?env = "\<lparr>can_send_fails = False, udp_t0 = 0, udp_wakeups = [(0.1, False, [])],
      bridge_send_fails = False, can_t0 = 0,
      can_polls = [?b] @ (False, 0.6, RecvTimeout) # []\<rparr>"
  have uok: "CAN_STRUCT_unpack LittleEndian ?ok = Inr (0x80000123, 8, [0, 0, 0], ?pl)"
    by (simp add: CAN_STRUCT_unpack_def CAN_STRUCT_size_def native_uint_def le_uint_def)
  have ubad: "CAN_STRUCT_unpack LittleEndian ?bad = Inr (0x124, 8, [0, 0, 0], ?pl)"
    by (simp add: CAN_STRUCT_unpack_def CAN_STRUCT_size_def native_uint_def le_uint_def)
  have pt: "polls_on LittleEndian 0x123 ?pl (0 + 0.5) ?t"
    by (simp add: polls_on_def)
  have pb: "polls_on LittleEndian 0x123 ?pl (0 + 0.5) ?b"
    by (simp add: polls_on_def ubad echo_matches_def CAN_EFF_MASK_def)
  have acc: "accepted_at LittleEndian 0x123 ?pl (0 + 0.5) ?a"
    by (simp add: accepted_at_def uok CAN_EFF_MASK_def)
  have ex: "\<exists>pre p post. [?t, ?a] = pre @ p # post \<and>
         (\<forall>q \<in> set pre. polls_on LittleEndian 0x123 ?pl (0 + 0.5) q) \<and>
         accepted_at LittleEndian 0x123 ?pl (0 + 0.5) p"
  proof (intro exI conjI)
    show "[?t, ?a] = [?t] @ ?a # []" by simp
    show "\<forall>q \<in> set [?t]. polls_on LittleEndian 0x123 ?pl (0 + 0.5) q" using pt by simp
    show "accepted_at LittleEndian 0x123 ?pl (0 + 0.5) ?a" by (rule acc)
  qed
  have w1: "wait_for_can_echo LittleEndian 0x123 ?pl 0 0.5 [?t, ?a] = Some (Inr True)"
    using can_echo_accepted_iff
      [where bo = LittleEndian and eid = "0x123" and epl = ?pl and ?t0.0 = 0 and timeout = "0.5"
         and polls = "[?t, ?a]", THEN conjunct1] ex
    by blast
  have w2: "wait_for_can_echo LittleEndian 0x123 ?pl 0 0.5 (?t # [?a]) =
            wait_for_can_echo LittleEndian 0x123 ?pl 0 0.5 [?a]"
    using can_echo_accepted_iff
      [where bo = LittleEndian and eid = "0x123" and epl = ?pl and ?t0.0 = 0 and timeout = "0.5"
         and ?p0.0 = ?t and rest = "[?a]", THEN conjunct2, THEN conjunct1] pt
    by blast
  have h3: "(\<forall>q \<in> set [?b]. polls_on LittleEndian 0x123 ?pl (0 + 0.5) q) \<and>
            (False \<or> (0::real) + 0.5 \<le> 0.6 \<or> RecvTimeout = RecvOSError)"
    using pb by simp
  have w3: "wait_for_can_echo LittleEndian 0x123 ?pl 0 0.5 ([?b] @ (False, 0.6, RecvTimeout) # []) =
              Some (Inr False)"
    using can_echo_accepted_iff
      [where bo = LittleEndian and eid = "0x123" and epl = ?pl and ?t0.0 = 0 and timeout = "0.5"
         and ?pre0.0 = "[?b]" and stop = False and now = "0.6" and r = RecvTimeout and rest = "[]",
         THEN conjunct2, THEN conjunct2, THEN conjunct1] h3
    by blast
  have p: "CAN_STRUCT_pack LittleEndian (0x123 OR (if False then CAN_EFF_FLAG else 0)) 8 [0, 0, 0]
             ?pl = Inr ?frame"
    by (simp add: CAN_STRUCT_pack_def native_bytes4_def le_bytes4_def fit_def)
  have s: "\<not> can_send_fails ?env" by simp
  have f: "\<not> bridge_send_fails ?env" by simp
  have w: "wait_for_packet [0x123 \<mapsto> [(?p, 8, 0x123, ?pl)]] 0x123 (udp_t0 ?env) 0.5 (udp_wakeups ?env) =
             Some (Some (?p, 8, 0x123, ?pl), Map.empty)"
    by (simp add: wait_for_packet_def wait_check_def)
  have e: "wait_for_can_echo LittleEndian 0x123 ?pl (can_t0 ?env) 0.5 (can_polls ?env) = Some (Inr False)"
    using w3 by simp
  have w4: "run_cycle LittleEndian ?st [0x123 \<mapsto> [(?p, 8, 0x123, ?pl)]] False 0x123 ?pl ?env =
     Some (Inr (record_outcome ?st (if False then ''success'' else ''can_timeout'') 0x123, Map.empty,
                [CanSent ?frame, UdpSent ?p]))"
    using can_echo_accepted_iff
      [where bo = LittleEndian and base_id = "0x123" and extended = False and payload = ?pl
         and frame = ?frame and env = ?env and mb = "[0x123 \<mapsto> [(?p, 8, 0x123, ?pl)]]"
         and packet_bytes = ?p and info = 8 and mb' = Map.empty and found = False and stats = ?st,
         THEN conjunct2, THEN conjunct2, THEN conjunct2]
      p s w f e
    by blast
  then have w4': "run_cycle LittleEndian ?st [0x123 \<mapsto> [(?p, 8, 0x123, ?pl)]] False 0x123 ?pl ?env =
     Some (Inr (record_outcome ?st ''can_timeout'' 0x123, Map.empty, [CanSent ?frame, UdpSent ?p]))"
    by simp
  show ?thesis using w1 w2 w3 w4' by blast
qed

text \<open>
  A frame with declared length 3 whose first three data bytes are those of the payload sent
  is accepted, though its payload cut to that length is not the payload that was sent.
\<close>

theorem short_frame_accepted_counterexample:
  "CAN_STRUCT_unpack LittleEndian [0x23, 0x01, 0, 0, 3, 0, 0, 0, 1, 2, 3, 0xFF, 0xFF, 0xFF, 0xFF, 0xFF] =
     Inr (0x123, 3, [0, 0, 0], [1, 2, 3, 0xFF, 0xFF, 0xFF, 0xFF, 0xFF]) \<and>
   wait_for_can_echo LittleEndian 0x123 [1, 2, 3, 4, 5, 6, 7, 8] 0 0.5
     [(False, 0.1, Received [0x23, 0x01, 0, 0, 3, 0, 0, 0, 1, 2, 3, 0xFF, 0xFF, 0xFF, 0xFF, 0xFF])] =
     Some (Inr True) \<and>
   \<not> echo_matches_whole 0x123 [1, 2, 3, 4, 5, 6, 7, 8] 0x123 3 [1, 2, 3, 0xFF, 0xFF, 0xFF, 0xFF, 0xFF]"
proof -
  let ?f = "[0x23, 0x01, 0, 0, 3, 0, 0, 0, 1, 2, 3, 0xFF, 0xFF, 0xFF, 0xFF, 0xFF] :: bytes"
  have u: "CAN_STRUCT_unpack LittleEndian ?f = Inr (0x123, 3, [0, 0, 0], [1, 2, 3, 0xFF, 0xFF, 0xFF, 0xFF, 0xFF])"
    by (simp add: CAN_STRUCT_unpack_def CAN_STRUCT_size_def native_uint_def le_uint_def)
  have w: "wait_for_can_echo LittleEndian 0x123 [1, 2, 3, 4, 5, 6, 7, 8] 0 0.5 [(False, 0.1, Received ?f)] =
             Some (Inr True)"
    by (simp add: wait_for_can_echo_def u echo_matches_def CAN_EFF_MASK_def)
  have n: "\<not> echo_matches_whole 0x123 [1, 2, 3, 4, 5, 6, 7, 8] 0x123 3 [1, 2, 3, 0xFF, 0xFF, 0xFF, 0xFF, 0xFF]"
    by (simp add: echo_matches_whole_def)
  show ?thesis using u w n by blast
qed

text \<open>
  C10: a frame received in time whose identifier, masked by \<^verbatim>\<open>CAN_EFF_MASK\<close>, is the
  expected one and whose declared length is 0 passes the test and makes
  \<^verbatim>\<open>_wait_for_can_echo\<close> return \<open>True\<close>, whatever its data bytes and whatever the
  payload that was sent.
\<close>

theorem zero_dlc_frame_accepted:
  assumes "CAN_STRUCT_unpack bo frame_bytes = Inr (can_id, 0, pad, data)"
    and "can_id AND CAN_EFF_MASK = expected_id"
    and "\<not> stop"
    and "now < t0 + timeout"
  shows "echo_matches expected_id expected_payload can_id 0 data \<and>
         wait_for_can_echo bo expected_id expected_payload t0 timeout
           ((stop, now, Received frame_bytes) # rest) = Some (Inr True)"
  using assms echo_zero_dlc [OF assms(1,2,3,4)]
  by (simp add: wait_for_can_echo_def echo_matches_def)

theorem zero_dlc_frame_accepted_witness:
  "CAN_STRUCT_unpack LittleEndian
     [0x23, 0x01, 0, 0x80, 0, 0, 0, 0, 0xAA, 0xAA, 0xAA, 0xAA, 0xAA, 0xAA, 0xAA, 0xAA] =
     Inr (0x80000123, 0, [0, 0, 0], [0xAA, 0xAA, 0xAA, 0xAA, 0xAA, 0xAA, 0xAA, 0xAA]) \<and>
   wait_for_can_echo LittleEndian 0x123 [1, 2, 3, 4, 5, 6, 7, 8] 0 0.5
     ((False, 0.1, Received [0x23, 0x01, 0, 0x80, 0, 0, 0, 0, 0xAA, 0xAA, 0xAA, 0xAA, 0xAA, 0xAA, 0xAA, 0xAA])
      # []) = Some (Inr True)"
proof -
  let ?f = "[0x23, 0x01, 0, 0x80, 0, 0, 0, 0, 0xAA, 0xAA, 0xAA, 0xAA, 0xAA, 0xAA, 0xAA, 0xAA] :: bytes"
  have u: "CAN_STRUCT_unpack LittleEndian ?f =
             Inr (0x80000123, 0, [0, 0, 0], [0xAA, 0xAA, 0xAA, 0xAA, 0xAA, 0xAA, 0xAA, 0xAA])"
    by (simp add: CAN_STRUCT_unpack_def CAN_STRUCT_size_def native_uint_def le_uint_def)
  have m: "(0x80000123 :: int) AND CAN_EFF_MASK = 0x123" by (simp add: CAN_EFF_MASK_def)
  have s: "\<not> False" by simp
  have t: "(0.1 :: real) < 0 + 0.5" by simp
  show ?thesis
    using zero_dlc_frame_accepted [OF u m s t, of "[1, 2, 3, 4, 5, 6, 7, 8]" "[]"] u by blast
qed

section \<open>The stop flag ends the waits\<close>






lemma echo_loop_step:
  "echo_loop bo eid epl deadline (p # rest) =
     (case echo_loop bo eid epl deadline [p] of Some res \<Rightarrow> Some res
      | None \<Rightarrow> echo_loop bo eid epl deadline rest)"
  by (cases p) (simp add: Let_def split: recv_result.splits sum.splits prod.splits)






lemma wait_loop_clock_None:
  "wait_loop_clock mb X deadline wakeups = None \<longleftrightarrow> wait_loop mb X deadline wakeups = None"
proof (induction wakeups arbitrary: mb)
  case Nil
  then show ?case by simp
next
  case (Cons w wakeups)
  obtain n s d where w: "w = (n, s, d)" by (cases w)
  obtain p mb1 where c: "wait_check mb X deadline n s = (p, mb1)"
    by (cases "wait_check mb X deadline n s")
  show ?case using w c Cons.IH [of "fst (mux_run mb1 d)"] by (cases p) simp_all
qed

lemma echo_loop_clock_None:
  "echo_loop_clock bo eid epl deadline polls = None \<longleftrightarrow> echo_loop bo eid epl deadline polls = None"
proof (induction polls)
  case Nil
  then show ?case by simp
next
  case (Cons p polls)
  obtain s n x where p: "p = (s, n, x)" by (cases p)
  show ?case
    using Cons.IH echo_loop_step [of bo eid epl deadline "(s, n, x)" polls] p
    by (cases "echo_loop bo eid epl deadline [(s, n, x)]") simp_all
qed



end
